theory Spec2Isabelle
  imports Main "HOL-Library.Word" "HOL-Library.List_Lexorder" "HOL-Library.Multiset"
begin

section \<open>The ProcessList of state/processList.go\<close>

text \<open>
  A shallow embedding of the per-directory-block process list: the minute map, the
  lookup of a VM for a hash, completion, membership, the missing-message scheduler,
  admission and the processor. Go's \<open>int\<close> is modelled as \<open>int\<close> where it only counts
  or indexes (a slice length never leaves the 64-bit range), fixed-width fields as
  words. A run-time panic of the Go code is the left summand of the result.
\<close>

subsection \<open>Errors and primitive types\<close>

datatype error =
    IndexOutOfRange
  | NilDereference
  | DivideByZero
  | Panic string

type_synonym hash = "8 word list"

type_synonym timestamp = "64 word"

text \<open>
  Go's \<open>%\<close> on signed integers truncates towards zero: the result has the sign of the
  dividend.
\<close>

definition go_mod :: "int \<Rightarrow> int \<Rightarrow> int" where
  "go_mod a b = sgn a * (\<bar>a\<bar> mod \<bar>b\<bar>)"

subsection \<open>Data model\<close>

record Server =
  ChainID :: hash
  Name :: string
  Online :: bool
  Replace :: "hash option"

text \<open>The fields of an IMsg that the process list reads or writes.\<close>

record msg =
  mHash :: hash
  mMsgHash :: hash
  mRepeatHash :: hash
  mTimestamp :: timestamp
  mLocal :: bool
  mPeer2Peer :: bool

text \<open>
  messages.Ack. \<open>aMsgHash\<close> is the result of \<open>GetMsgHash()\<close>, which is nil when the
  acknowledgement cannot be marshalled; \<open>GetHash()\<close> of an acknowledgement is its
  \<open>MessageHash\<close>.
\<close>

record Ack =
  aVMIndex :: int
  aDBHeight :: "32 word"
  aHeight :: "32 word"
  aSerialHash :: hash
  aMessageHash :: hash
  aLeaderChainID :: hash
  aSaltNumber :: "32 word"
  aResponse :: bool
  aTimestamp :: timestamp
  aMinute :: "8 word"
  aMsgHash :: "hash option"
  aLocal :: bool
  aPeer2Peer :: bool

record MissingMsg =
  mmVMIndex :: int
  mmDBHeight :: "32 word"
  mmProcessListHeight :: "32 word list"

datatype outbound =
    OutMsg msg
  | OutAck Ack
  | OutMissingMsg MissingMsg

datatype election_msg =
    AddLeaderInternal string "32 word" hash
  | AddAuditInternal string "32 word" hash
  | RemoveLeaderInternal string "32 word" hash
  | RemoveAuditInternal string "32 word" hash

record VM =
  List :: "msg option list"
  ListAck :: "Ack option list"
  Height :: int
  EomMinuteIssued :: int
  LeaderMinute :: int
  Synced :: bool
  heartBeat :: "64 word"
  Signed :: bool
  WhenFaulted :: "64 word"
  FaultFlag :: int
  MMRequests :: "(int \<rightharpoonup> bool) option"
  MM_AskTime :: "64 word"
  ProcessTime :: timestamp

text \<open>
  The part of the node's State that the process list uses. \<open>Now\<close> is what
  \<open>GetTimestamp()\<close> returns, \<open>GetSalt\<close> the salt function of this node,
  \<open>inMsgQueueLength\<close> the length of the inbound queue, \<open>Outbound\<close> the messages
  handed to \<open>SendOut\<close> (oldest first), \<open>ResetCalls\<close> the number of calls of
  \<open>State.Reset()\<close>. The replay filter is kept abstract (\<open>'r\<close>).
\<close>

record 'r State =
  FactomNodeName :: string
  IdentityChainID :: hash
  GetSalt :: "timestamp \<Rightarrow> 32 word"
  Now :: timestamp
  HighestAck :: "32 word"
  HighestSavedBlk :: "32 word"
  EntryDBHeightComplete :: "32 word"
  PLProcessHeight :: "32 word"
  OneLeader :: bool
  Syncing :: bool
  WaitForEntries :: bool
  inMsgQueueLength :: int
  MissingRequestAskCnt :: "64 word"
  Holding :: "hash set"
  Acks :: "hash set"
  Replay :: 'r
  Outbound :: "outbound list"
  electionsQueue :: "election_msg list"
  ResetCalls :: nat

record 'r ProcessList =
  DBHeight :: "32 word"
  State :: "'r State"
  VMs :: "VM list"
  ServerMap :: "int list list"
  FedServers :: "Server list"
  AuditServers :: "Server list"
  OldMsgs :: "hash \<rightharpoonup> msg"
  OldAcks :: "hash \<rightharpoonup> Ack"
  NextHeightToProcess :: "int list"

subsection \<open>Complete\<close>

text \<open>The loop of \<open>Complete\<close> over the federated servers, from index \<open>i\<close>.\<close>

function Complete_loop :: "'r ProcessList \<Rightarrow> nat \<Rightarrow> error + bool" where
  "Complete_loop p i =
     (if i < length (FedServers p) then
        (if length (VMs p) \<le> i then Inl IndexOutOfRange
         else if LeaderMinute (VMs p ! i) < 10 then Inr False
         else if Height (VMs p ! i) < int (length (List (VMs p ! i))) then Inr False
         else Complete_loop p (i + 1))
      else Inr True)"
  by pat_completeness auto
termination
  by (relation "measure (\<lambda>(p, i). length (FedServers p) - i)") auto

declare Complete_loop.simps [simp del]

definition Complete :: "'r ProcessList option \<Rightarrow> error + bool" where
  "Complete po =
     (case po of
        None \<Rightarrow> Inr False
      | Some p \<Rightarrow>
          if DBHeight p \<le> HighestSavedBlk (State p) then Inr True
          else Complete_loop p 0)"

subsection \<open>VMIndexFor\<close>

definition VMIndexFor :: "'r ProcessList \<Rightarrow> 8 word list \<Rightarrow> error + int" where
  "VMIndexFor p hash =
     (if OneLeader (State p) then Inr 0
      else
        let v = foldl (\<lambda>v b. v + ucast b) (0 :: 64 word) hash;
            n = (of_nat (length (FedServers p)) :: 64 word)
        in if n = 0 then Inl DivideByZero else Inr (sint (v mod n)))"

subsection \<open>MakeMap\<close>

text \<open>The inner loop of \<open>MakeMap\<close>: the columns of one row, from column \<open>j\<close>.\<close>

function MakeMap_cols :: "int \<Rightarrow> nat \<Rightarrow> int list \<Rightarrow> int \<Rightarrow> error + (int list \<times> int)" where
  "MakeMap_cols n j row indx =
     (if int j < n then
        (if length row \<le> j then Inl IndexOutOfRange
         else MakeMap_cols n (j + 1) (row[j := indx]) (go_mod (indx + 1) n))
      else Inr (row, indx))"
  by pat_completeness auto
termination
  by (relation "measure (\<lambda>(n, j, row, indx). nat (n - int j))") auto

declare MakeMap_cols.simps [simp del]

text \<open>The outer loop of \<open>MakeMap\<close>: the ten minutes, from minute \<open>i\<close>.\<close>

function MakeMap_rows :: "int \<Rightarrow> nat \<Rightarrow> int list list \<Rightarrow> int \<Rightarrow> error + int list list" where
  "MakeMap_rows n i serverMap indx =
     (if i < 10 then
        (case MakeMap_cols n 0 (serverMap ! i) (go_mod (indx + 1) n) of
           Inl e \<Rightarrow> Inl e
         | Inr (row, indx') \<Rightarrow> MakeMap_rows n (i + 1) (serverMap[i := row]) indx')
      else Inr serverMap)"
  by pat_completeness auto
termination
  by (relation "measure (\<lambda>(n, i, serverMap, indx). 10 - i)") auto

declare MakeMap_rows.simps [simp del]

definition MakeMap :: "int \<Rightarrow> 32 word \<Rightarrow> error + int list list" where
  "MakeMap numberFedServers dbheight =
     (if numberFedServers > 0 then
        MakeMap_rows numberFedServers 0 (replicate 10 (replicate 64 0))
          (go_mod (uint (dbheight * 131)) numberFedServers)
      else Inr (replicate 10 (replicate 64 0)))"


definition ProcessList_MakeMap :: "'r ProcessList \<Rightarrow> error + 'r ProcessList" where
  "ProcessList_MakeMap p =
     (case MakeMap (int (length (FedServers p))) (DBHeight p) of
        Inl e \<Rightarrow> Inl e
      | Inr serverMap \<Rightarrow> Inr (p\<lparr>ServerMap := serverMap\<rparr>))"

subsection \<open>Server ordering\<close>

text \<open>
  \<open>bytes.Compare\<close> of the Go library: lexicographic on unsigned bytes, a proper prefix
  is smaller.
\<close>

fun bytes_Compare :: "8 word list \<Rightarrow> 8 word list \<Rightarrow> int" where
  "bytes_Compare [] [] = 0"
| "bytes_Compare [] (y # ys) = - 1"
| "bytes_Compare (x # xs) [] = 1"
| "bytes_Compare (x # xs) (y # ys) =
     (if x < y then - 1 else if y < x then 1 else bytes_Compare xs ys)"

text \<open>
  \<open>SortServers\<close> is a bubble sort that stops after a pass without a swap. The inner
  loop is pass \<open>i\<close> from position \<open>j\<close>; it returns the slice and the flag \<open>done\<close>.
\<close>

function SortServers_pass :: "Server list \<Rightarrow> nat \<Rightarrow> nat \<Rightarrow> bool \<Rightarrow> Server list \<times> bool" where
  "SortServers_pass servers i j done =
     (if int j < int (length servers) - 1 - int i then
        (if bytes_Compare (ChainID (servers ! j)) (ChainID (servers ! (j + 1))) > 0 then
           SortServers_pass (servers[j := servers ! (j + 1), j + 1 := servers ! j]) i (j + 1) False
         else SortServers_pass servers i (j + 1) done)
      else (servers, done))"
  by pat_completeness auto
termination
  by (relation "measure (\<lambda>(servers, i, j, done). length servers - j)") auto

declare SortServers_pass.simps [simp del]

lemma length_SortServers_pass [simp]:
  "length (fst (SortServers_pass servers i j done)) = length servers"
proof (induction servers i j "done" rule: SortServers_pass.induct)
  case (1 servers i j d)
  show ?case
    by (subst SortServers_pass.simps) (use 1 in simp)
qed

lemma SortServers_pass_length:
  "SortServers_pass servers i j d = (servers', d') \<Longrightarrow> length servers' = length servers"
  using length_SortServers_pass [of servers i j d] by simp

function SortServers_from :: "Server list \<Rightarrow> nat \<Rightarrow> Server list" where
  "SortServers_from servers i =
     (if int i < int (length servers) - 1 then
        (case SortServers_pass servers i 0 True of
           (servers', done) \<Rightarrow> if done then servers' else SortServers_from servers' (i + 1))
      else servers)"
  by pat_completeness auto
termination
  by (relation "measure (\<lambda>(servers, i). length servers - i)")
     (auto dest: SortServers_pass_length SortServers_pass_length [OF sym])

declare SortServers_from.simps [simp del]

definition SortServers :: "Server list \<Rightarrow> Server list" where
  "SortServers servers = SortServers_from servers 0"

definition SortFedServers :: "'r ProcessList \<Rightarrow> 'r ProcessList" where
  "SortFedServers p = p\<lparr>FedServers := SortServers (FedServers p)\<rparr>"

definition SortAuditServers :: "'r ProcessList \<Rightarrow> 'r ProcessList" where
  "SortAuditServers p = p\<lparr>AuditServers := SortServers (AuditServers p)\<rparr>"

subsection \<open>Membership\<close>

text \<open>
  The search loop shared by \<open>GetFedServerIndexHash\<close> and \<open>GetAuditServerIndexHash\<close>:
  the first index from \<open>i\<close> whose chain-id compares equal, or the length of the list.
\<close>

fun ServerIndexHash :: "hash \<Rightarrow> Server list \<Rightarrow> nat \<Rightarrow> bool \<times> int" where
  "ServerIndexHash scid [] i = (False, int i)"
| "ServerIndexHash scid (fs # rest) i =
     (if bytes_Compare scid (ChainID fs) = 0 then (True, int i)
      else ServerIndexHash scid rest (i + 1))"

definition GetFedServerIndexHash :: "'r ProcessList option \<Rightarrow> hash \<Rightarrow> bool \<times> int" where
  "GetFedServerIndexHash po identityChainID =
     (case po of
        None \<Rightarrow> (False, 0)
      | Some p \<Rightarrow> ServerIndexHash identityChainID (FedServers p) 0)"

definition GetAuditServerIndexHash :: "'r ProcessList option \<Rightarrow> hash \<Rightarrow> bool \<times> int" where
  "GetAuditServerIndexHash po identityChainID =
     (case po of
        None \<Rightarrow> (False, 0)
      | Some p \<Rightarrow> ServerIndexHash identityChainID (AuditServers p) 0)"

definition Enqueue :: "election_msg \<Rightarrow> 'r ProcessList \<Rightarrow> 'r ProcessList" where
  "Enqueue InMsg p =
     p\<lparr>State := (State p)\<lparr>electionsQueue := electionsQueue (State p) @ [InMsg]\<rparr>\<rparr>"

text \<open>\<open>append(s[:i], s[i+1:]...)\<close> for an index inside the slice.\<close>

definition splice_out :: "nat \<Rightarrow> 'a list \<Rightarrow> 'a list" where
  "splice_out i s = take i s @ drop (i + 1) s"

text \<open>
  \<open>s = append(s, nil); copy(s[i+1:], s[i:]); s[i] = x\<close> for \<open>0 \<le> i \<le> len(s)\<close>.
\<close>

definition insert_at :: "nat \<Rightarrow> 'a \<Rightarrow> 'a list \<Rightarrow> 'a list" where
  "insert_at i x s = take i s @ [x] @ drop i s"

definition RemoveAuditServerHash :: "'r ProcessList \<Rightarrow> hash \<Rightarrow> 'r ProcessList" where
  "RemoveAuditServerHash p identityChainID =
     (case GetAuditServerIndexHash (Some p) identityChainID of
        (found, i) \<Rightarrow>
          if \<not> found then p
          else
            (let p1 = Enqueue (RemoveAuditInternal (FactomNodeName (State p)) (DBHeight p)
                         identityChainID) p
             in p1\<lparr>AuditServers := splice_out (nat i) (AuditServers p1)\<rparr>))"


definition AddFedServer :: "'r ProcessList \<Rightarrow> hash \<Rightarrow> error + ('r ProcessList \<times> int)" where
  "AddFedServer p0 identityChainID =
     (let p = SortFedServers p0 in
      case GetFedServerIndexHash (Some p) identityChainID of
        (found, i) \<Rightarrow>
          if found then Inr (p, i)
          else if i < 0 then Inr (p, i)
          else
            (let p1 = (if fst (GetAuditServerIndexHash (Some p) identityChainID)
                       then RemoveAuditServerHash p identityChainID else p);
                 p2 = Enqueue (AddLeaderInternal (FactomNodeName (State p1)) (DBHeight p1)
                         identityChainID) p1
             in if int (length (FedServers p2)) < i then Inl IndexOutOfRange
                else
                  (case ProcessList_MakeMap
                          (p2\<lparr>FedServers :=
                                insert_at (nat i)
                                  \<lparr>ChainID = identityChainID, Name = [], Online = True,
                                   Replace = None\<rparr>
                                  (FedServers p2)\<rparr>) of
                     Inl e \<Rightarrow> Inl e
                   | Inr p3 \<Rightarrow> Inr (p3, i))))"






subsection \<open>External collaborators\<close>

text \<open>
  Code that the process list calls and that lives outside this file is a parameter:
  the constant \<open>constants.INMSGQUEUE_MED\<close>, \<open>primitives.CreateHash\<close> (\<open>None\<close> is
  its error return), the replay filter (\<open>Replay.Valid\<close> and \<open>Replay.IsTSValid_\<close> for
  the kind \<open>INTERNAL_REPLAY\<close>), \<open>msg.Process\<close>, which acts on the node's State and
  says whether the message was processed, the elections side of \<open>FaultCheck\<close>, the
  value \<open>markNoFault\<close> leaves in \<open>FaultFlag\<close>, \<open>GetNetworkBootStrapIdentity\<close> and
  the error return of \<open>entryCreditBlock.NextECBlock\<close>.
\<close>

record 'r env =
  INMSGQUEUE_MED :: int
  CreateHash :: "hash \<Rightarrow> hash \<Rightarrow> hash option"
  ReplayValid :: "'r \<Rightarrow> hash \<Rightarrow> timestamp \<Rightarrow> timestamp \<Rightarrow> bool"
  ReplayIsTSValid :: "'r \<Rightarrow> hash \<Rightarrow> timestamp \<Rightarrow> timestamp \<Rightarrow> 'r"
  MsgProcess :: "msg \<Rightarrow> 32 word \<Rightarrow> 'r State \<Rightarrow> bool \<times> 'r State"
  FaultCheck :: "'r State \<Rightarrow> 'r State"
  NoFaultFlag :: int
  NetworkBootStrapIdentity :: hash
  NextECBlock_err :: "string option"

text \<open>
  Modelled from the spec: \<open>primitives.Timestamp\<close> is not in this file; the spec's
  clock counts milliseconds. \<open>GetTimeMilli\<close> is the count as an int64,
  \<open>GetTimeSeconds\<close> the whole seconds as an int64.
\<close>

definition GetTimeMilli :: "timestamp \<Rightarrow> 64 word" where
  "GetTimeMilli t = t"

definition GetTimeSeconds :: "timestamp \<Rightarrow> 64 word" where
  "GetTimeSeconds t = t div 1000"

text \<open>
  Modelled from the spec: \<open>State.Reset()\<close> is not in this file; the model counts the
  calls.
\<close>

definition State_Reset :: "'r State \<Rightarrow> 'r State" where
  "State_Reset st = st\<lparr>ResetCalls := ResetCalls st + 1\<rparr>"

text \<open>
  Modelled from the spec: \<open>messages.NewMissingMsg\<close> is not in this file; the request
  names the VM, the directory-block height and the height asked for.
\<close>

definition NewMissingMsg :: "int \<Rightarrow> 32 word \<Rightarrow> 32 word \<Rightarrow> MissingMsg" where
  "NewMissingMsg vmIndex dbHeight processlistHeight =
     \<lparr>mmVMIndex = vmIndex, mmDBHeight = dbHeight, mmProcessListHeight = [processlistHeight]\<rparr>"

definition update_vm :: "'r ProcessList \<Rightarrow> nat \<Rightarrow> (VM \<Rightarrow> VM) \<Rightarrow> 'r ProcessList" where
  "update_vm p i f = p\<lparr>VMs := (VMs p)[i := f (VMs p ! i)]\<rparr>"

text \<open>
  Modelled from the spec: \<open>markFault\<close> and \<open>markNoFault\<close> are not in this file.
  \<open>markFault\<close> sets \<open>WhenFaulted\<close> to now if it is zero, and the flag; \<open>markNoFault\<close>
  clears both.
\<close>

definition markFault :: "'r ProcessList \<Rightarrow> nat \<Rightarrow> int \<Rightarrow> 'r ProcessList" where
  "markFault p i flag =
     update_vm p i (\<lambda>vm. vm\<lparr>WhenFaulted :=
                              (if WhenFaulted vm = 0 then GetTimeMilli (Now (State p))
                               else WhenFaulted vm),
                            FaultFlag := flag\<rparr>)"

definition markNoFault :: "'r env \<Rightarrow> 'r ProcessList \<Rightarrow> nat \<Rightarrow> 'r ProcessList" where
  "markNoFault env p i =
     update_vm p i (\<lambda>vm. vm\<lparr>WhenFaulted := 0, FaultFlag := NoFaultFlag env\<rparr>)"

subsection \<open>Ask\<close>

text \<open>\<open>vm.MMRequests[height]\<close>: false on a nil map and on a missing key.\<close>

definition mm_requested :: "(int \<rightharpoonup> bool) option \<Rightarrow> int \<Rightarrow> bool" where
  "mm_requested r h =
     (case r of None \<Rightarrow> False | Some m \<Rightarrow> (case m h of None \<Rightarrow> False | Some b \<Rightarrow> b))"

text \<open>The indices of the nil entries of a list, ascending.\<close>

definition nil_slots :: "msg option list \<Rightarrow> nat list" where
  "nil_slots l = filter (\<lambda>i. l ! i = None) [0..<length l]"

definition Ask :: "'r env \<Rightarrow> 'r ProcessList \<Rightarrow> int \<Rightarrow> int \<Rightarrow> error + 'r ProcessList" where
  "Ask env p vmIndex height =
     (let now = GetTimeMilli (Now (State p)) in
      if vmIndex < 0 then Inl (Panic ''Old Faulting code'')
      else if int (length (VMs p)) \<le> vmIndex then Inl IndexOutOfRange
      else
        (let vm = VMs p ! nat vmIndex;
             deltaT = now - MM_AskTime vm
         in if MMRequests vm = None \<or> \<not> mm_requested (MMRequests vm) height
               \<or> 2000 \<le> sint deltaT
            then
              (if mm_requested (MMRequests vm) height
                  \<and> INMSGQUEUE_MED env < inMsgQueueLength (State p)
               then Inr p
               else
                 (let missingMsgRequest =
                        NewMissingMsg vmIndex (DBHeight p) (of_nat (length (List vm)));
                      request = missingMsgRequest
                        \<lparr>mmProcessListHeight :=
                           mmProcessListHeight missingMsgRequest
                           @ map of_nat (nil_slots (List vm))\<rparr>;
                      vm' = vm
                        \<lparr>MM_AskTime := now,
                         MMRequests :=
                           Some (foldl (\<lambda>m k. m(int k \<mapsto> True))
                                   [int (length (List vm)) \<mapsto> True] (nil_slots (List vm)))\<rparr>
                  in Inr (p\<lparr>VMs := (VMs p)[nat vmIndex := vm'],
                            State := (State p)
                              \<lparr>Outbound := Outbound (State p) @ [OutMissingMsg request],
                               MissingRequestAskCnt :=
                                 MissingRequestAskCnt (State p) + 1\<rparr>\<rparr>)))
            else Inr p))"

subsection \<open>AddToProcessList\<close>

text \<open>The closure \<open>toss\<close>: drop the acknowledgement's hash from both look-asides.\<close>

definition toss :: "Ack \<Rightarrow> 'r ProcessList \<Rightarrow> 'r ProcessList" where
  "toss ack p =
     p\<lparr>State := (State p)
          \<lparr>Holding := Holding (State p) - {aMessageHash ack},
           Acks := Acks (State p) - {aMessageHash ack}\<rparr>\<rparr>"

text \<open>\<open>len(vm.List) > int(ack.Height) && vm.List[ack.Height] != nil\<close>\<close>

definition slot_filled :: "VM \<Rightarrow> Ack \<Rightarrow> bool" where
  "slot_filled vm ack =
     (unat (aHeight ack) < length (List vm) \<and> List vm ! unat (aHeight ack) \<noteq> None)"

text \<open>
  The last part of \<open>AddToProcessList\<close>, from the comment "we consider the transaction
  recorded" on: the slot is free and the heights agree.
\<close>

definition AddToProcessList_record ::
    "'r ProcessList \<Rightarrow> Ack \<Rightarrow> msg option \<Rightarrow> error + 'r ProcessList" where
  "AddToProcessList_record p ack mo =
     (case mo of
        None \<Rightarrow> Inl NilDereference
      | Some m0 \<Rightarrow>
          (let i = nat (aVMIndex ack);
               h = unat (aHeight ack);
               m = m0\<lparr>mLocal := False, mPeer2Peer := False\<rparr>;
               ack' = ack\<lparr>aLocal := False, aPeer2Peer := False\<rparr>;
               vm = (VMs p ! i)\<lparr>heartBeat := 0\<rparr>;
               st = (State p)
                 \<lparr>Acks := Acks (State p) - {mMsgHash m},
                  Holding := Holding (State p) - {mMsgHash m},
                  Outbound := Outbound (State p) @ [OutMsg m, OutAck ack']\<rparr>;
               grow = (h + 1) - length (List vm);
               list = List vm @ replicate grow None;
               listAck = ListAck vm @ replicate grow None
           in if length listAck \<le> h then Inl IndexOutOfRange
              else
                Inr (p\<lparr>State := st,
                       VMs := (VMs p)[i := vm\<lparr>List := list[h := Some m],
                                               ListAck := listAck[h := Some ack']\<rparr>],
                       OldMsgs := (OldMsgs p)(mHash m \<mapsto> m),
                       OldAcks := (OldAcks p)(mMsgHash m \<mapsto> ack')\<rparr>)))"

text \<open>
  The receiver is a process list: on a nil receiver the method returns at once.
  \<open>ack\<close> and \<open>m\<close> may be nil.
\<close>

definition AddToProcessList ::
    "'r env \<Rightarrow> 'r ProcessList \<Rightarrow> Ack option \<Rightarrow> msg option \<Rightarrow> error + 'r ProcessList" where
  "AddToProcessList env p0 acko mo =
     (case acko of
        None \<Rightarrow> Inr p0
      | Some ack \<Rightarrow>
          if aMsgHash ack = None then Inr p0
          else
            (let p = (if HighestAck (State p0) < aDBHeight ack \<and> 0 < aMinute ack
                      then p0\<lparr>State := (State p0)\<lparr>HighestAck := aDBHeight ack\<rparr>\<rparr>
                      else p0);
                 self = (\<not> aResponse ack \<and> aLeaderChainID ack = IdentityChainID (State p))
             in if self \<and>
                   120 < sint (GetTimeSeconds (Now (State p)) - GetTimeSeconds (aTimestamp ack))
                then Inr p
                else if self \<and> GetSalt (State p) (aTimestamp ack) \<noteq> aSaltNumber ack
                then Inl (Panic ''There are two leaders configured with the same Identity in this network!  This is a configuration problem!'')
                else if aVMIndex ack < 0 \<or> int (length (VMs p)) \<le> aVMIndex ack
                then Inl IndexOutOfRange
                else
                  (let now = Now (State p);
                       vm = VMs p ! nat (aVMIndex ack)
                   in if slot_filled vm ack \<and> mo = None then Inl NilDereference
                      else if slot_filled vm ack
                              \<and> \<not> ReplayValid env (Replay (State p)) (mRepeatHash (the mo))
                                    (mTimestamp (the mo)) now
                      then Inr (toss ack p)
                      else if aDBHeight ack \<noteq> DBHeight p then Inr p
                      else if slot_filled vm ack then
                        (if mMsgHash (the (List vm ! unat (aHeight ack))) = mMsgHash (the mo)
                         then Inr (toss ack p)
                         else Inr (update_vm p (nat (aVMIndex ack))
                                     (\<lambda>vm. vm\<lparr>List := (List vm)[unat (aHeight ack) := None]\<rparr>)))
                      else AddToProcessList_record p ack mo)))"


subsection \<open>Process\<close>

text \<open>
  The serial-hash test of one slot. With \<open>vm.Height = 0\<close> the acknowledgement's own
  serial hash is expected and nothing is compared. Otherwise the hash of the last
  processed acknowledgement's message hash and this one's is computed; the
  computation can fail, and the result can differ from the acknowledgement's.
\<close>

datatype serial_result = SerialOK | SerialError | SerialMismatch

definition SerialHashCheck :: "'r env \<Rightarrow> VM \<Rightarrow> Ack option \<Rightarrow> error + serial_result" where
  "SerialHashCheck env vm thisAck =
     (if Height vm = 0 then
        (case thisAck of None \<Rightarrow> Inl NilDereference | Some a \<Rightarrow> Inr SerialOK)
      else if Height vm - 1 < 0 \<or> int (length (ListAck vm)) \<le> Height vm - 1
      then Inl IndexOutOfRange
      else
        (case ListAck vm ! nat (Height vm - 1) of
           None \<Rightarrow> Inl NilDereference
         | Some lastAck \<Rightarrow>
             (case thisAck of
                None \<Rightarrow> Inl NilDereference
              | Some a \<Rightarrow>
                  (case CreateHash env (aMessageHash lastAck) (aMessageHash a) of
                     None \<Rightarrow> Inr SerialError
                   | Some expectedSerialHash \<Rightarrow>
                       if expectedSerialHash \<noteq> aSerialHash a then Inr SerialMismatch
                       else Inr SerialOK))))"

text \<open>\<open>vm.List[j] = nil\<close> on VM \<open>i\<close>\<close>

definition clear_slot :: "'r ProcessList \<Rightarrow> nat \<Rightarrow> nat \<Rightarrow> 'r ProcessList" where
  "clear_slot p i j = update_vm p i (\<lambda>vm. vm\<lparr>List := (List vm)[j := None]\<rparr>)"

text \<open>
  What the node's State records once a message has been processed: both hashes go
  into the replay filter, and the message leaves the look-asides.
\<close>

definition record_processed :: "'r env \<Rightarrow> msg \<Rightarrow> timestamp \<Rightarrow> 'r State \<Rightarrow> 'r State" where
  "record_processed env m now st =
     (let r1 = ReplayIsTSValid env (Replay st) (mRepeatHash m) (mTimestamp m) now;
          r2 = ReplayIsTSValid env r1 (mMsgHash m) (mTimestamp m) now
      in st\<lparr>Replay := r2, Acks := Acks st - {mMsgHash m}, Holding := Holding st - {mMsgHash m}\<rparr>)"

text \<open>
  The body of \<open>VMListLoop\<close> for VM \<open>i\<close> at slot \<open>j\<close> (with \<open>j < len(vm.List)\<close>). It
  ends in one of three ways: the message was processed and the loop goes on with the
  next slot (\<open>Advance\<close>); the loop is left by \<open>break VMListLoop\<close> (\<open>Break\<close>); Process
  returns after \<open>State.Reset()\<close> (\<open>Return\<close>).
\<close>

datatype 'r slot_exit =
    Advance "'r ProcessList"
  | Break "'r ProcessList"
  | Return "'r ProcessList"

definition ProcessSlot :: "'r env \<Rightarrow> 'r ProcessList \<Rightarrow> nat \<Rightarrow> int \<Rightarrow> error + 'r slot_exit" where
  "ProcessSlot env p i j =
     (if j < 0 then Inl IndexOutOfRange
      else
        (case List (VMs p ! i) ! nat j of
           None \<Rightarrow>
             (case Ask env p (int i) j of
                Inl e \<Rightarrow> Inl e
              | Inr p1 \<Rightarrow> Inr (Break p1))
         | Some msg \<Rightarrow>
             (if int (length (ListAck (VMs p ! i))) \<le> j then Inl IndexOutOfRange
              else
                (case SerialHashCheck env (VMs p ! i) (ListAck (VMs p ! i) ! nat j) of
                   Inl e \<Rightarrow> Inl e
                 | Inr SerialError \<Rightarrow>
                     (case Ask env (clear_slot p i (nat j)) (int i) j of
                        Inl e \<Rightarrow> Inl e
                      | Inr p1 \<Rightarrow> Inr (Break p1))
                 | Inr SerialMismatch \<Rightarrow> Inr (Return (p\<lparr>State := State_Reset (State p)\<rparr>))
                 | Inr SerialOK \<Rightarrow>
                     (let diff = DBHeight p - EntryDBHeightComplete (State p) in
                      if \<not> WaitForEntries (State p)
                         \<or> (LeaderMinute (VMs p ! i) < 2 \<and> diff \<le> 3) \<or> diff \<le> 2
                      then
                        (if length (NextHeightToProcess p) \<le> i then Inl IndexOutOfRange
                         else
                           (let p1 = p\<lparr>NextHeightToProcess :=
                                          (NextHeightToProcess p)[i := j + 1]\<rparr>;
                                now = Now (State p1)
                            in if \<not> ReplayValid env (Replay (State p1)) (mRepeatHash msg)
                                      (mTimestamp msg) now
                               then Inr (Break (clear_slot p1 i (nat j)))
                               else
                                 (let p2 = update_vm p1 i (\<lambda>vm. vm\<lparr>ProcessTime := now\<rparr>) in
                                  case MsgProcess env msg (DBHeight p2) (State p2) of
                                    (ok, st) \<Rightarrow>
                                      if ok then
                                        Inr (Advance
                                               (update_vm
                                                  (p2\<lparr>State := record_processed env msg now st\<rparr>)
                                                  i (\<lambda>vm. vm\<lparr>heartBeat := 0, Height := j + 1\<rparr>)))
                                      else Inr (Break (p2\<lparr>State := st\<rparr>)))))
                      else Inr (Break p))))))"

lemma ProcessSlot_Advance:
  assumes "ProcessSlot env p i j = Inr (Advance p')"
  shows "\<exists>st. p' =
           update_vm
             (update_vm (p\<lparr>NextHeightToProcess := (NextHeightToProcess p)[i := j + 1]\<rparr>) i
                (\<lambda>vm. vm\<lparr>ProcessTime := Now (State p)\<rparr>)
              \<lparr>State := st\<rparr>)
             i (\<lambda>vm. vm\<lparr>heartBeat := 0, Height := j + 1\<rparr>)"
  using assms unfolding ProcessSlot_def Let_def
  by (auto split: if_splits option.splits sum.splits serial_result.splits prod.splits)

lemma ProcessSlot_Advance_length:
  assumes "ProcessSlot env p i j = Inr (Advance p')"
  shows "length (List (VMs p' ! i)) = length (List (VMs p ! i))"
proof -
  from ProcessSlot_Advance [OF assms] obtain st where
    "p' = update_vm
             (update_vm (p\<lparr>NextHeightToProcess := (NextHeightToProcess p)[i := j + 1]\<rparr>) i
                (\<lambda>vm. vm\<lparr>ProcessTime := Now (State p)\<rparr>)
              \<lparr>State := st\<rparr>)
             i (\<lambda>vm. vm\<lparr>heartBeat := 0, Height := j + 1\<rparr>)"
    by blast
  then show ?thesis
    by (cases "i < length (VMs p)") (simp_all add: update_vm_def list_update_beyond)
qed

text \<open>
  \<open>VMListLoop\<close> on VM \<open>i\<close>, from slot \<open>j\<close>, with the result \<open>progress\<close> so far. The loop
  ends with the process list, the result \<open>progress\<close>, and whether Process returns
  there (\<open>True\<close>) or goes on with the next VM.
\<close>

function VMListLoop ::
    "'r env \<Rightarrow> 'r ProcessList \<Rightarrow> nat \<Rightarrow> int \<Rightarrow> bool \<Rightarrow> error + ('r ProcessList \<times> bool \<times> bool)" where
  "VMListLoop env p i j progress =
     (if j < int (length (List (VMs p ! i))) then
        (case ProcessSlot env p i j of
           Inl e \<Rightarrow> Inl e
         | Inr (Advance p') \<Rightarrow> VMListLoop env p' i (j + 1) True
         | Inr (Break p') \<Rightarrow> Inr (p', progress, False)
         | Inr (Return p') \<Rightarrow> Inr (p', progress, True))
      else Inr (p, progress, False))"
  by pat_completeness auto
termination
  by (relation "measure (\<lambda>(env, p, i, j, progress). nat (int (length (List (VMs p ! i))) - j))")
     (auto dest: ProcessSlot_Advance_length)

declare VMListLoop.simps [simp del]

text \<open>The fault bookkeeping at the head of the loop over the VMs, for VM \<open>i\<close>.\<close>

definition Process_faults :: "'r env \<Rightarrow> 'r ProcessList \<Rightarrow> nat \<Rightarrow> 'r ProcessList" where
  "Process_faults env p i =
     (let vm = VMs p ! i;
          p1 = (if \<not> Syncing (State p) then markNoFault env p i
                else if \<not> Synced vm then
                  (if WhenFaulted vm = 0 then markFault p i 0 else p)
                else
                  (if FaultFlag vm = 0 then markNoFault env p i else p))
      in p1\<lparr>State := FaultCheck env (State p1)\<rparr>)"

text \<open>The two requests for a VM that is caught up with its list.\<close>

definition Process_asks ::
    "'r env \<Rightarrow> timestamp \<Rightarrow> 'r ProcessList \<Rightarrow> nat \<Rightarrow> error + 'r ProcessList" where
  "Process_asks env now p i =
     (case (if Height (VMs p ! i) = int (length (List (VMs p ! i)))
               \<and> Syncing (State p) \<and> \<not> Synced (VMs p ! i)
            then Ask env p (int i) (Height (VMs p ! i)) else Inr p) of
        Inl e \<Rightarrow> Inl e
      | Inr p1 \<Rightarrow>
          if Height (VMs p1 ! i) = int (length (List (VMs p1 ! i)))
             \<and> 2000 < sint (GetTimeMilli now - GetTimeMilli (ProcessTime (VMs p1 ! i)))
          then Ask env p1 (int i) (Height (VMs p1 ! i)) else Inr p1)"


text \<open>
  The loop over the VMs, from VM \<open>i\<close>: \<open>now\<close> is the timestamp taken before the loop.
  The result is the process list and the value of \<open>progress\<close> that Process returns.
\<close>

lemma FedServers_update_vm [simp]: "FedServers (update_vm p i f) = FedServers p"
  by (simp add: update_vm_def)

lemma FedServers_Ask: "Ask env p v h = Inr p' \<Longrightarrow> FedServers p' = FedServers p"
  by (auto simp: Ask_def Let_def split: if_splits)

lemma FedServers_Process_faults [simp]: "FedServers (Process_faults env p i) = FedServers p"
  by (simp add: Process_faults_def Let_def markFault_def markNoFault_def)

lemma FedServers_Process_asks:
  "Process_asks env now p i = Inr p' \<Longrightarrow> FedServers p' = FedServers p"
  unfolding Process_asks_def
  by (auto split: if_splits sum.splits dest!: FedServers_Ask)

lemma FedServers_ProcessSlot:
  assumes "ProcessSlot env p i j = Inr r"
  shows "FedServers (case r of Advance q \<Rightarrow> q | Break q \<Rightarrow> q | Return q \<Rightarrow> q) = FedServers p"
  using assms unfolding ProcessSlot_def Let_def clear_slot_def
  by (auto split: if_splits option.splits sum.splits serial_result.splits prod.splits
      dest!: FedServers_Ask)

lemma FedServers_VMListLoop:
  "VMListLoop env p i j progress = Inr (p', r) \<Longrightarrow> FedServers p' = FedServers p"
proof (induction env p i j progress rule: VMListLoop.induct)
  case (1 env p i j progress)
  show ?case
  proof (cases "j < int (length (List (VMs p ! i)))")
    case False
    with "1.prems" show ?thesis by (simp add: VMListLoop.simps)
  next
    case True
    show ?thesis
    proof (cases "ProcessSlot env p i j")
      case (Inl e)
      with True "1.prems" show ?thesis by (simp add: VMListLoop.simps)
    next
      case (Inr x)
      from FedServers_ProcessSlot [OF Inr] Inr True "1.prems" "1.IH" [OF True Inr]
      show ?thesis
        by (cases x) (simp_all add: VMListLoop.simps [of env p])
    qed
  qed
qed

function ProcessLoop ::
    "'r env \<Rightarrow> timestamp \<Rightarrow> 'r ProcessList \<Rightarrow> nat \<Rightarrow> bool \<Rightarrow> error + ('r ProcessList \<times> bool)" where
  "ProcessLoop env now p i progress =
     (if i < length (FedServers p) then
        (if length (VMs p) \<le> i then Inl IndexOutOfRange
         else
           (case Process_asks env now (Process_faults env p i) i of
              Inl e \<Rightarrow> Inl e
            | Inr p1 \<Rightarrow>
                (case VMListLoop env p1 i (Height (VMs p1 ! i)) progress of
                   Inl e \<Rightarrow> Inl e
                 | Inr (p2, progress', returned) \<Rightarrow>
                     if returned then Inr (p2, progress')
                     else ProcessLoop env now p2 (i + 1) progress')))
      else Inr (p, progress))"
  by pat_completeness auto
termination
  by (relation "measure (\<lambda>(env, now, p, i, progress). length (FedServers p) - i)")
     (auto dest!: FedServers_Process_asks FedServers_VMListLoop FedServers_VMListLoop [OF sym])

declare ProcessLoop.simps [simp del]

definition Process :: "'r env \<Rightarrow> 'r ProcessList \<Rightarrow> error + ('r ProcessList \<times> bool)" where
  "Process env p =
     (if DBHeight p \<le> HighestSavedBlk (State p) then Inr (p, True)
      else
        (let p1 = p\<lparr>State := (State p)\<lparr>PLProcessHeight := DBHeight p\<rparr>\<rparr>
         in ProcessLoop env (Now (State p1)) p1 0 False))"

text \<open>
  The rest of a call of Process from the point where the loop of VM \<open>i\<close> stands at slot
  \<open>j\<close>: the rest of that loop, then the VMs after \<open>i\<close>.
\<close>

definition Process_from_slot ::
    "'r env \<Rightarrow> timestamp \<Rightarrow> 'r ProcessList \<Rightarrow> nat \<Rightarrow> int \<Rightarrow> bool \<Rightarrow> error + ('r ProcessList \<times> bool)" where
  "Process_from_slot env now p i j progress =
     (case VMListLoop env p i j progress of
        Inl e \<Rightarrow> Inl e
      | Inr (p2, progress', returned) \<Rightarrow>
          if returned then Inr (p2, progress')
          else ProcessLoop env now p2 (i + 1) progress')"

text \<open>
  The places at which the loops of Process stand during a call: the process list as
  it is, the VM \<open>i\<close>, the slot \<open>j\<close> that \<open>VMListLoop\<close> looks at next, and \<open>progress\<close>.
  One step leads from a slot that is processed to the next slot of the same VM, or
  from a place where the loop of VM \<open>i\<close> ends by \<open>break\<close> (or at the end of the list) to
  the first slot of VM \<open>i + 1\<close>, after its fault bookkeeping and requests.
\<close>

inductive Process_step ::
    "'r env \<Rightarrow> timestamp \<Rightarrow> 'r ProcessList \<times> nat \<times> int \<times> bool
       \<Rightarrow> 'r ProcessList \<times> nat \<times> int \<times> bool \<Rightarrow> bool"
  for env :: "'r env" and now :: timestamp where
    advance:
      "j < int (length (List (VMs p ! i))) \<Longrightarrow> ProcessSlot env p i j = Inr (Advance p') \<Longrightarrow>
       Process_step env now (p, i, j, progress) (p', i, j + 1, True)"
  | next_vm:
      "VMListLoop env p i j progress = Inr (p2, progress', False) \<Longrightarrow>
       Suc i < length (FedServers p2) \<Longrightarrow> Suc i < length (VMs p2) \<Longrightarrow>
       Process_asks env now (Process_faults env p2 (Suc i)) (Suc i) = Inr p3 \<Longrightarrow>
       Process_step env now (p, i, j, progress) (p3, Suc i, Height (VMs p3 ! Suc i), progress')"

code_pred Process_step .

subsection \<open>NewProcessList\<close>

definition NewVM :: "timestamp \<Rightarrow> VM" where
  "NewVM now =
     \<lparr>List = [], ListAck = [], Height = 0, EomMinuteIssued = 0, LeaderMinute = 0,
      Synced = True, heartBeat = 0, Signed = False, WhenFaulted = 0, FaultFlag = 0,
      MMRequests = None, MM_AskTime = 0, ProcessTime = now\<rparr>"

definition NewProcessList ::
    "'r env \<Rightarrow> 'r State \<Rightarrow> 'r ProcessList option \<Rightarrow> 32 word \<Rightarrow> error + 'r ProcessList" where
  "NewProcessList env state previous dbheight =
     (let pl =
            \<lparr>DBHeight = 0, State = state, VMs = [],
             ServerMap = replicate 10 (replicate 64 0),
             FedServers = [], AuditServers = [],
             OldMsgs = Map.empty, OldAcks = Map.empty,
             NextHeightToProcess = replicate 64 0\<rparr>
      in case (case previous of
                 Some prev \<Rightarrow>
                   Inr (SortFedServers
                          (pl\<lparr>FedServers := map (\<lambda>f. f\<lparr>Online := True\<rparr>) (FedServers prev),
                              AuditServers :=
                                map (\<lambda>a. a\<lparr>Online := (IdentityChainID state = ChainID a)\<rparr>)
                                  (AuditServers prev)\<rparr>))
               | None \<Rightarrow>
                   (case AddFedServer pl (NetworkBootStrapIdentity env) of
                      Inl e \<Rightarrow> Inl e
                    | Inr (pl1, i) \<Rightarrow> Inr pl1)) of
           Inl e \<Rightarrow> Inl e
         | Inr pl1 \<Rightarrow>
             (case ProcessList_MakeMap
                     (pl1\<lparr>VMs := replicate 65 (NewVM (Now (State pl1))),
                          DBHeight := dbheight\<rparr>) of
                Inl e \<Rightarrow> Inl e
              | Inr pl2 \<Rightarrow>
                  (case NextECBlock_err env of
                     Some err \<Rightarrow> Inl (Panic err)
                   | None \<Rightarrow> Inr pl2)))"


subsection \<open>Sequences of calls and the VM invariant\<close>

text \<open>
  A call of \<open>AddToProcessList\<close>, a call of Process, or a change of the node's State by
  code elsewhere (the clock, the replay filter, the flags); and a sequence of them run
  on a process list. A panic ends the run.
\<close>

datatype 'r call =
    Admit "Ack option" "msg option"
  | Run
  | Elsewhere "'r State"

fun run_calls :: "'r env \<Rightarrow> 'r ProcessList \<Rightarrow> 'r call list \<Rightarrow> error + 'r ProcessList" where
  "run_calls env p [] = Inr p"
| "run_calls env p (Admit ack m # cs) =
     (case AddToProcessList env p ack m of
        Inl e \<Rightarrow> Inl e
      | Inr p' \<Rightarrow> run_calls env p' cs)"
| "run_calls env p (Run # cs) =
     (case Process env p of
        Inl e \<Rightarrow> Inl e
      | Inr (p', progress) \<Rightarrow> run_calls env p' cs)"
| "run_calls env p (Elsewhere st # cs) = run_calls env (p\<lparr>State := st\<rparr>) cs"

text \<open>
  What holds of a VM between calls: the two lists are equally long, the height lies
  within them, a slot with a message has its acknowledgement, and every slot below
  the height has its acknowledgement.
\<close>

definition vm_inv :: "VM \<Rightarrow> bool" where
  "vm_inv vm =
     (length (List vm) = length (ListAck vm)
      \<and> 0 \<le> Height vm \<and> Height vm \<le> int (length (List vm))
      \<and> (\<forall>i<length (List vm). List vm ! i \<noteq> None \<longrightarrow> ListAck vm ! i \<noteq> None)
      \<and> (\<forall>i<length (List vm). int i < Height vm \<longrightarrow> ListAck vm ! i \<noteq> None))"

definition pl_inv :: "'r ProcessList \<Rightarrow> bool" where
  "pl_inv p = list_all vm_inv (VMs p)"

subsection \<open>Example values\<close>

text \<open>A node state, servers and process lists on which the theorems below are run.\<close>

definition ex_State :: "unit State" where
  "ex_State =
     \<lparr>FactomNodeName = ''FNode0'', IdentityChainID = [7], GetSalt = (\<lambda>t. 5), Now = 200000,
      HighestAck = 0, HighestSavedBlk = 3, EntryDBHeightComplete = 3, PLProcessHeight = 0,
      OneLeader = False, Syncing = False, WaitForEntries = False, inMsgQueueLength = 0,
      MissingRequestAskCnt = 0, Holding = {}, Acks = {}, Replay = (), Outbound = [],
      electionsQueue = [], ResetCalls = 0\<rparr>"

definition ex_env :: "unit env" where
  "ex_env =
     \<lparr>INMSGQUEUE_MED = 50, CreateHash = (\<lambda>a b. Some (a @ b)),
      ReplayValid = (\<lambda>r h t now. True), ReplayIsTSValid = (\<lambda>r h t now. r),
      MsgProcess = (\<lambda>m h st. (True, st)), FaultCheck = (\<lambda>st. st), NoFaultFlag = - 1,
      NetworkBootStrapIdentity = [8], NextECBlock_err = None\<rparr>"

definition ex_Server :: "hash \<Rightarrow> Server" where
  "ex_Server c = \<lparr>ChainID = c, Name = [], Online = True, Replace = None\<rparr>"

text \<open>A process list at height 4 with three federated servers and three fresh VMs.\<close>

definition ex_pl :: "unit ProcessList" where
  "ex_pl =
     \<lparr>DBHeight = 4, State = ex_State, VMs = [NewVM 0, NewVM 0, NewVM 0],
      ServerMap = replicate 10 (replicate 64 0),
      FedServers = [ex_Server [1], ex_Server [2], ex_Server [3]],
      AuditServers = [ex_Server [4]],
      OldMsgs = Map.empty, OldAcks = Map.empty, NextHeightToProcess = replicate 64 0\<rparr>"


text \<open>The same process list once its block is saved (height 3).\<close>

definition ex_pl_saved :: "unit ProcessList" where
  "ex_pl_saved = ex_pl\<lparr>DBHeight := 3\<rparr>"

text \<open>The same with every leader at minute 10.\<close>

definition ex_pl_done :: "unit ProcessList" where
  "ex_pl_done = ex_pl\<lparr>VMs := replicate 3 ((NewVM 0)\<lparr>LeaderMinute := 10\<rparr>)\<rparr>"

text \<open>The same in single-leader mode.\<close>

definition ex_pl_one :: "unit ProcessList" where
  "ex_pl_one = ex_pl\<lparr>State := ex_State\<lparr>OneLeader := True\<rparr>\<rparr>"


definition ex_msg :: "hash \<Rightarrow> msg" where
  "ex_msg h =
     \<lparr>mHash = h, mMsgHash = h, mRepeatHash = h, mTimestamp = 199000, mLocal = False,
      mPeer2Peer = False\<rparr>"

text \<open>
  An acknowledgement for VM 0 at directory-block height 4: its slot, the hash of the
  message it acknowledges, and its serial hash.
\<close>

definition ex_Ack :: "32 word \<Rightarrow> hash \<Rightarrow> hash \<Rightarrow> Ack" where
  "ex_Ack h mh sh =
     \<lparr>aVMIndex = 0, aDBHeight = 4, aHeight = h, aSerialHash = sh, aMessageHash = mh,
      aLeaderChainID = [1], aSaltNumber = 5, aResponse = False, aTimestamp = 199000,
      aMinute = 0, aMsgHash = Some (mh @ [0]), aLocal = False, aPeer2Peer = False\<rparr>"

text \<open>
  A VM whose slot 0 is missing and was asked for at the given time, and process lists
  with this VM: asked 500 ms ago, asked 2100 ms ago, and the latter with 51 messages
  in the inbound queue.
\<close>

definition ex_vm_asked :: "64 word \<Rightarrow> VM" where
  "ex_vm_asked t =
     (NewVM 0)
       \<lparr>List := [None, Some (ex_msg [9])], ListAck := [None, Some (ex_Ack 1 [9] [9])],
        MMRequests := Some [0 \<mapsto> True], MM_AskTime := t\<rparr>"

definition ex_pl_asked :: "unit ProcessList" where
  "ex_pl_asked = ex_pl\<lparr>VMs := [ex_vm_asked 199500, NewVM 0, NewVM 0]\<rparr>"

definition ex_pl_due :: "unit ProcessList" where
  "ex_pl_due = ex_pl\<lparr>VMs := [ex_vm_asked 197900, NewVM 0, NewVM 0]\<rparr>"

definition ex_pl_congested :: "unit ProcessList" where
  "ex_pl_congested = ex_pl_due\<lparr>State := ex_State\<lparr>inMsgQueueLength := 51\<rparr>\<rparr>"

text \<open>
  Acknowledgements written by this node (leader chain-id 7) with a salt number that
  is not the node's (6 instead of 5): a fresh one, one that is 199 s old, and a fresh
  one without a message hash.
\<close>

definition ex_ack_self :: Ack where
  "ex_ack_self = (ex_Ack 0 [9] [9])\<lparr>aLeaderChainID := [7], aSaltNumber := 6\<rparr>"

definition ex_ack_stale :: Ack where
  "ex_ack_stale = ex_ack_self\<lparr>aTimestamp := 1000\<rparr>"

definition ex_ack_nohash :: Ack where
  "ex_ack_nohash = ex_ack_self\<lparr>aMsgHash := None\<rparr>"

text \<open>
  The process list after the admission of message 9 with its acknowledgement for slot
  0 of VM 0.
\<close>

definition ex_pl_admitted :: "unit ProcessList" where
  "ex_pl_admitted =
     ex_pl
       \<lparr>State := ex_State\<lparr>Outbound := [OutMsg (ex_msg [9]), OutAck (ex_Ack 0 [9] [9])]\<rparr>,
        VMs := [(NewVM 0)\<lparr>List := [Some (ex_msg [9])], ListAck := [Some (ex_Ack 0 [9] [9])]\<rparr>,
                NewVM 0, NewVM 0],
        OldMsgs := [[9] \<mapsto> ex_msg [9]],
        OldAcks := [[9] \<mapsto> ex_Ack 0 [9] [9]]\<rparr>"

text \<open>
  A process list whose VM 0 has processed slot 0 (message 8) and holds message 9 in
  slot 1 with a serial hash that is not the hash of the two message hashes (with
  \<open>ex_env\<close> that hash is \<open>[8, 9]\<close>).
\<close>

definition ex_pl_chain :: "unit ProcessList" where
  "ex_pl_chain =
     ex_pl
       \<lparr>VMs := [(NewVM 0)
                  \<lparr>List := [Some (ex_msg [8]), Some (ex_msg [9])],
                   ListAck := [Some (ex_Ack 0 [8] [8]), Some (ex_Ack 1 [9] [9])],
                   Height := 1\<rparr>,
                NewVM 0, NewVM 0]\<rparr>"

text \<open>
  The first process list of a node (no previous list) at height 4, and three calls on
  it: message 9 is admitted to slot 0 of VM 0, Process runs, and a message with
  another hash (6) arrives for the same slot.
\<close>

definition ex_pl_new :: "unit ProcessList" where
  "ex_pl_new =
     \<lparr>DBHeight = 4,
      State = ex_State\<lparr>electionsQueue := [AddLeaderInternal ''FNode0'' 0 [8]]\<rparr>,
      VMs = replicate 65 (NewVM 200000),
      ServerMap = replicate 10 (replicate 64 0),
      FedServers = [ex_Server [8]], AuditServers = [],
      OldMsgs = Map.empty, OldAcks = Map.empty, NextHeightToProcess = replicate 64 0\<rparr>"

definition ex_calls :: "unit call list" where
  "ex_calls =
     [Admit (Some (ex_Ack 0 [9] [9])) (Some (ex_msg [9])),
      Run,
      Admit (Some (ex_Ack 0 [9] [9])) (Some (ex_msg [6]))]"

text \<open>The same with nothing processed yet on VM 0.\<close>

definition ex_pl_chain0 :: "unit ProcessList" where
  "ex_pl_chain0 =
     ex_pl
       \<lparr>VMs := [(NewVM 0)
                  \<lparr>List := [Some (ex_msg [8]), Some (ex_msg [9])],
                   ListAck := [Some (ex_Ack 0 [8] [8]), Some (ex_Ack 1 [9] [9])]\<rparr>,
                NewVM 0, NewVM 0]\<rparr>"

section \<open>Properties\<close>

subsection \<open>The minute map\<close>

text \<open>
  C6 (as amended): for three federated servers at height 0 the index advances once
  before every row, so row 0 is 1, 2, 0, row 1 is 2, 0, 1 and row 2 is 0, 1, 2; the ten
  rows repeat these three, and the columns from 3 on stay 0.
\<close>

theorem MakeMap_3_0:
  "MakeMap 3 0 = Inr
    [[1, 2, 0] @ replicate 61 0, [2, 0, 1] @ replicate 61 0, [0, 1, 2] @ replicate 61 0,
     [1, 2, 0] @ replicate 61 0, [2, 0, 1] @ replicate 61 0, [0, 1, 2] @ replicate 61 0,
     [1, 2, 0] @ replicate 61 0, [2, 0, 1] @ replicate 61 0, [0, 1, 2] @ replicate 61 0,
     [1, 2, 0] @ replicate 61 0]"
  by code_simp

text \<open>
  Row 1 is not 1, 2, 0 again: after the three columns of row 0 the index is back at 1,
  and the step at the head of row 1 moves it to 2.
\<close>

theorem MakeMap_3_0_counterexample:
  "take 3 (projr (MakeMap 3 0) ! 0) = [1, 2, 0]
   \<and> take 3 (projr (MakeMap 3 0) ! 1) = [2, 0, 1]
   \<and> take 3 (projr (MakeMap 3 0) ! 1) \<noteq> [1, 2, 0]"
  by code_simp

subsection \<open>VMIndexFor\<close>

lemma fold_sum: "foldl (\<lambda>v b. v + ucast b) (a :: 64 word) (h :: 8 word list) = a + of_nat (sum_list (map unat h))"
  by (induction h arbitrary: a) (simp_all add: add.assoc)

lemma sum_bytes_bound: "sum_list (map unat (h :: 8 word list)) \<le> 255 * length h"
proof (induction h)
  case Nil
  then show ?case by simp
next
  case (Cons b h)
  have "unat b < 2 ^ 8" using unsigned_less [of b] by simp
  with Cons show ?case by simp
qed

lemma sint_small:
  fixes w :: "64 word"
  assumes "unat w < 2 ^ 63"
  shows "sint w = int (unat w)"
proof -
  have "int (unat w) < int (2 ^ 63)" using assms by (simp only: of_nat_less_iff)
  then have u: "uint w < 2 ^ 63" by simp
  have p: "(0::int) < 2 ^ 63" by simp
  have z: "- (2 ^ 63) \<le> uint w"
    using uint_ge_0 [of w] p by linarith
  have "signed_take_bit 63 (uint w) = uint w"
    using z u by (rule signed_take_bit_int_eq_self)
  then show ?thesis by (simp add: sint_uint)
qed

lemma VMIndexFor_value:
  assumes "\<not> OneLeader (State p)" and "0 < length (FedServers p)"
    and "length (FedServers p) < 2 ^ 63" and "length hash < 2 ^ 56"
  shows "VMIndexFor p hash = Inr (int (sum_list (map unat hash) mod length (FedServers p)))"
proof -
  let ?n = "length (FedServers p)"
  let ?s = "sum_list (map unat hash)"
  have s: "?s < 2 ^ 64" using sum_bytes_bound [of hash] assms(4) by simp
  have n: "?n < 2 ^ 64" using assms(3) by simp
  have un: "unat (of_nat ?n :: 64 word) = ?n" using n by (simp add: unat_of_nat)
  have us: "unat (of_nat ?s :: 64 word) = ?s" using s by (simp add: unat_of_nat)
  have n0: "(of_nat ?n :: 64 word) \<noteq> 0" using un assms(2) by (metis unat_0 less_numeral_extra(3))
  have m: "unat ((of_nat ?s :: 64 word) mod of_nat ?n) = ?s mod ?n"
    by (simp only: unat_mod un us)
  have "?s mod ?n < ?n" using assms(2) by simp
  then have lt: "?s mod ?n < 2 ^ 63" using assms(3) by simp
  have "sint ((of_nat ?s :: 64 word) mod of_nat ?n) = int (?s mod ?n)"
    using m lt sint_small [of "(of_nat ?s :: 64 word) mod of_nat ?n"] by simp
  then show ?thesis using assms(1) n0 by (simp add: VMIndexFor_def fold_sum Let_def)
qed

text \<open>
  C9: in single-leader mode \<open>VMIndexFor\<close> returns 0; otherwise, with at least one
  federated server, it returns the sum of the hash's bytes modulo the number of
  federated servers, which lies in \<open>[0, len(FedServers))\<close>; the result depends only on
  the mode, the bytes and that number. (A slice length fits an \<open>int\<close>; a hash of fewer
  than \<open>2^56\<close> bytes cannot overflow the 64-bit sum.)
\<close>

theorem VMIndexFor_spec:
  "(OneLeader (State p) \<longrightarrow> VMIndexFor p hash = Inr 0)
   \<and> (\<not> OneLeader (State p) \<and> 0 < length (FedServers p) \<and> length (FedServers p) < 2 ^ 63
        \<and> length hash < 2 ^ 56 \<longrightarrow>
        VMIndexFor p hash = Inr (int (sum_list (map unat hash) mod length (FedServers p)))
        \<and> 0 \<le> int (sum_list (map unat hash) mod length (FedServers p))
        \<and> int (sum_list (map unat hash) mod length (FedServers p)) < int (length (FedServers p)))
   \<and> (OneLeader (State p') = OneLeader (State p)
        \<and> length (FedServers p') = length (FedServers p) \<longrightarrow>
        VMIndexFor p' hash = VMIndexFor p hash)"
proof (intro conjI impI)
  assume "OneLeader (State p)"
  then show "VMIndexFor p hash = Inr 0" by (simp add: VMIndexFor_def)
next
  assume a: "\<not> OneLeader (State p) \<and> 0 < length (FedServers p) \<and> length (FedServers p) < 2 ^ 63
        \<and> length hash < 2 ^ 56"
  then show "VMIndexFor p hash = Inr (int (sum_list (map unat hash) mod length (FedServers p)))"
    using VMIndexFor_value [of p hash] by blast
  show "0 \<le> int (sum_list (map unat hash) mod length (FedServers p))" by simp
  from a show "int (sum_list (map unat hash) mod length (FedServers p)) < int (length (FedServers p))"
    by simp
next
  assume "OneLeader (State p') = OneLeader (State p)
        \<and> length (FedServers p') = length (FedServers p)"
  then show "VMIndexFor p' hash = VMIndexFor p hash" by (simp add: VMIndexFor_def)
qed

theorem VMIndexFor_spec_witness:
  "VMIndexFor ex_pl_one [200, 100, 5] = Inr 0
   \<and> VMIndexFor ex_pl [200, 100, 5] = Inr 2
   \<and> VMIndexFor ex_pl_done [200, 100, 5] = VMIndexFor ex_pl [200, 100, 5]"
proof -
  have one: "OneLeader (State ex_pl_one)"
    by (simp add: ex_pl_one_def)
  have h: "\<not> OneLeader (State ex_pl) \<and> 0 < length (FedServers ex_pl)
        \<and> length (FedServers ex_pl) < 2 ^ 63 \<and> length [200, 100, 5 :: 8 word] < 2 ^ 56"
    by (simp add: ex_pl_def ex_State_def)
  have d: "OneLeader (State ex_pl_done) = OneLeader (State ex_pl)
        \<and> length (FedServers ex_pl_done) = length (FedServers ex_pl)"
    by (simp add: ex_pl_done_def)
  have "VMIndexFor ex_pl [200, 100, 5]
        = Inr (int (sum_list (map unat [200, 100, 5 :: 8 word]) mod length (FedServers ex_pl)))"
    using VMIndexFor_spec [of ex_pl "[200, 100, 5]"] h by blast
  then have "VMIndexFor ex_pl [200, 100, 5] = Inr 2"
    by (simp add: ex_pl_def)
  then show ?thesis
    using VMIndexFor_spec [of ex_pl_one "[200, 100, 5]"] one
      VMIndexFor_spec [of ex_pl "[200, 100, 5]" ex_pl_done] d
    by blast
qed

subsection \<open>Complete\<close>

lemma all_from_split:
  "(i::nat) < n \<Longrightarrow> (\<forall>k. i \<le> k \<and> k < n \<longrightarrow> P k) = (P i \<and> (\<forall>k. i + 1 \<le> k \<and> k < n \<longrightarrow> P k))"
proof (intro iffI conjI allI impI)
  fix k assume a: "P i \<and> (\<forall>k. i + 1 \<le> k \<and> k < n \<longrightarrow> P k)" and k: "i \<le> k \<and> k < n"
  show "P k"
  proof (cases "k = i")
    case True
    with a show ?thesis by simp
  next
    case False
    with k have "i + 1 \<le> k \<and> k < n" by arith
    with a show ?thesis by blast
  qed
qed auto

lemma Complete_loop_eq:
  "length (FedServers p) \<le> length (VMs p) \<Longrightarrow>
   Complete_loop p i =
     Inr (\<forall>k. i \<le> k \<and> k < length (FedServers p) \<longrightarrow>
            10 \<le> LeaderMinute (VMs p ! k) \<and> int (length (List (VMs p ! k))) \<le> Height (VMs p ! k))"
proof (induction p i rule: Complete_loop.induct)
  case (1 p i)
  let ?P = "\<lambda>k. 10 \<le> LeaderMinute (VMs p ! k) \<and> int (length (List (VMs p ! k))) \<le> Height (VMs p ! k)"
  show ?case
  proof (cases "i < length (FedServers p)")
    case False
    then show ?thesis by (simp add: Complete_loop.simps)
  next
    case True
    note lt = this
    have vm: "\<not> length (VMs p) \<le> i" using lt "1.prems" by simp
    note split = all_from_split [OF lt, of ?P]
    show ?thesis
    proof (cases "?P i")
      case False
      have "Complete_loop p i = Inr False"
        using lt vm False by (subst Complete_loop.simps) auto
      moreover have "\<not> (\<forall>k. i \<le> k \<and> k < length (FedServers p) \<longrightarrow> ?P k)"
        using False lt by blast
      ultimately show ?thesis by simp
    next
      case True
      have "Complete_loop p i = Complete_loop p (i + 1)"
        using lt vm True by (subst Complete_loop.simps) simp
      also have "\<dots> = Inr (\<forall>k. i + 1 \<le> k \<and> k < length (FedServers p) \<longrightarrow> ?P k)"
        using "1.IH" [OF lt vm _ _ "1.prems"] True by simp
      finally show ?thesis using True split by simp
    qed
  qed
qed

lemma ex_pl_VMs [simp]: "i < 3 \<Longrightarrow> VMs ex_pl ! i = NewVM 0"
  by (auto simp: ex_pl_def less_Suc_eq numeral_3_eq_3)

lemma ex_pl_done_VMs [simp]: "i < 3 \<Longrightarrow> VMs ex_pl_done ! i = (NewVM 0)\<lparr>LeaderMinute := 10\<rparr>"
  by (simp add: ex_pl_done_def)

text \<open>
  C7 (as amended): for a process list whose block is not saved yet, \<open>Complete\<close> returns
  true iff every active VM has \<open>LeaderMinute \<ge> 10\<close> and \<open>Height \<ge> len(List)\<close>; for VMs
  within the ranges of the data model (\<open>LeaderMinute \<le> 10\<close>, \<open>Height \<le> len(List)\<close>) that
  is: iff every active VM has \<open>LeaderMinute = 10\<close> and \<open>Height = len(List)\<close>.
\<close>

theorem Complete_iff:
  assumes "HighestSavedBlk (State p) < DBHeight p"
    and "length (FedServers p) \<le> length (VMs p)"
  shows "Complete (Some p) =
           Inr (\<forall>i<length (FedServers p).
                  10 \<le> LeaderMinute (VMs p ! i) \<and> int (length (List (VMs p ! i))) \<le> Height (VMs p ! i))
         \<and> ((\<forall>i<length (FedServers p).
                LeaderMinute (VMs p ! i) \<le> 10 \<and> Height (VMs p ! i) \<le> int (length (List (VMs p ! i)))) \<longrightarrow>
             Complete (Some p) =
               Inr (\<forall>i<length (FedServers p).
                      LeaderMinute (VMs p ! i) = 10 \<and> Height (VMs p ! i) = int (length (List (VMs p ! i)))))"
proof -
  have ns: "\<not> DBHeight p \<le> HighestSavedBlk (State p)" using assms(1) by simp
  have c: "Complete (Some p) =
           Inr (\<forall>i<length (FedServers p).
                  10 \<le> LeaderMinute (VMs p ! i) \<and> int (length (List (VMs p ! i))) \<le> Height (VMs p ! i))"
    using ns Complete_loop_eq [OF assms(2), of 0] by (simp add: Complete_def)
  show ?thesis
  proof (intro conjI impI)
    show "Complete (Some p) =
           Inr (\<forall>i<length (FedServers p).
                  10 \<le> LeaderMinute (VMs p ! i) \<and> int (length (List (VMs p ! i))) \<le> Height (VMs p ! i))"
      by (rule c)
  next
    assume r: "\<forall>i<length (FedServers p).
                LeaderMinute (VMs p ! i) \<le> 10 \<and> Height (VMs p ! i) \<le> int (length (List (VMs p ! i)))"
    have "(\<forall>i<length (FedServers p).
                  10 \<le> LeaderMinute (VMs p ! i) \<and> int (length (List (VMs p ! i))) \<le> Height (VMs p ! i))
        = (\<forall>i<length (FedServers p).
                      LeaderMinute (VMs p ! i) = 10 \<and> Height (VMs p ! i) = int (length (List (VMs p ! i))))"
    proof -
      have "(10 \<le> LeaderMinute (VMs p ! i) \<and> int (length (List (VMs p ! i))) \<le> Height (VMs p ! i))
          = (LeaderMinute (VMs p ! i) = 10 \<and> Height (VMs p ! i) = int (length (List (VMs p ! i))))"
        if "i < length (FedServers p)" for i
        using r [rule_format, OF that] by auto
      then show ?thesis by simp
    qed
    with c show "Complete (Some p) =
               Inr (\<forall>i<length (FedServers p).
                      LeaderMinute (VMs p ! i) = 10 \<and> Height (VMs p ! i) = int (length (List (VMs p ! i))))"
      by simp
  qed
qed

theorem Complete_iff_witness:
  "HighestSavedBlk (State ex_pl_done) < DBHeight ex_pl_done
   \<and> length (FedServers ex_pl_done) \<le> length (VMs ex_pl_done)
   \<and> Complete (Some ex_pl_done) = Inr True
   \<and> Complete (Some ex_pl) = Inr False"
proof -
  have h: "HighestSavedBlk (State ex_pl_done) < DBHeight ex_pl_done"
    "length (FedServers ex_pl_done) \<le> length (VMs ex_pl_done)"
    by (simp_all add: ex_pl_done_def ex_pl_def ex_State_def)
  have r: "\<forall>i<length (FedServers ex_pl_done).
      LeaderMinute (VMs ex_pl_done ! i) \<le> 10
      \<and> Height (VMs ex_pl_done ! i) \<le> int (length (List (VMs ex_pl_done ! i)))"
    by (simp add: ex_pl_done_def ex_pl_def NewVM_def)
  have a: "\<forall>i<length (FedServers ex_pl_done).
      LeaderMinute (VMs ex_pl_done ! i) = 10
      \<and> Height (VMs ex_pl_done ! i) = int (length (List (VMs ex_pl_done ! i)))"
    by (simp add: ex_pl_done_def ex_pl_def NewVM_def)
  have h': "HighestSavedBlk (State ex_pl) < DBHeight ex_pl"
    "length (FedServers ex_pl) \<le> length (VMs ex_pl)"
    by (simp_all add: ex_pl_def ex_State_def)
  have n: "\<not> (\<forall>i<length (FedServers ex_pl).
      10 \<le> LeaderMinute (VMs ex_pl ! i)
      \<and> int (length (List (VMs ex_pl ! i))) \<le> Height (VMs ex_pl ! i))"
    by (auto simp: ex_pl_def NewVM_def intro!: exI [of _ 0])
  from Complete_iff [OF h] r a have "Complete (Some ex_pl_done) = Inr True" by simp
  moreover from Complete_iff [OF h'] n have "Complete (Some ex_pl) = Inr False" by simp
  ultimately show ?thesis using h by simp
qed

text \<open>
  Once the block is saved, \<open>Complete\<close> is true although no leader has reached minute 10.
\<close>

theorem Complete_iff_counterexample:
  "Complete (Some ex_pl_saved) = Inr True
   \<and> (0::nat) < length (FedServers ex_pl_saved)
   \<and> LeaderMinute (VMs ex_pl_saved ! 0) \<noteq> 10"
  by (simp add: Complete_def ex_pl_saved_def ex_pl_def ex_State_def NewVM_def)

text \<open>
  C10: \<open>Complete\<close> on a nil process list is false; when the block of this height is
  saved already (\<open>DBHeight \<le> GetHighestSavedBlk()\<close>) it is true, whatever the VMs hold.
\<close>

theorem Complete_saved_shortcut:
  "Complete None = Inr False
   \<and> (DBHeight p \<le> HighestSavedBlk (State p) \<longrightarrow> Complete (Some p) = Inr True)"
  by (simp add: Complete_def)

theorem Complete_saved_shortcut_witness:
  "DBHeight ex_pl_saved \<le> HighestSavedBlk (State ex_pl_saved)
   \<and> Complete (Some ex_pl_saved) = Inr True
   \<and> LeaderMinute (VMs ex_pl_saved ! 0) = 0"
proof -
  have h: "DBHeight ex_pl_saved \<le> HighestSavedBlk (State ex_pl_saved)"
    by (simp add: ex_pl_saved_def ex_pl_def ex_State_def)
  moreover from Complete_saved_shortcut [of ex_pl_saved] h
  have "Complete (Some ex_pl_saved) = Inr True" by blast
  moreover have "LeaderMinute (VMs ex_pl_saved ! 0) = 0"
    by (simp add: ex_pl_saved_def ex_pl_def NewVM_def)
  ultimately show ?thesis by blast
qed

subsection \<open>Ask\<close>

lemma set_nil_slots: "set (nil_slots l) = {k. k < length l \<and> l ! k = None}"
  by (auto simp: nil_slots_def)

lemma mm_requested_upd:
  "mm_requested (Some (m0(k \<mapsto> True))) h = (h = k \<or> mm_requested (Some m0) h)"
  by (simp add: mm_requested_def)

lemma mm_requested_fold:
  "mm_requested (Some (foldl (\<lambda>m k. m(int k \<mapsto> True)) m0 ks)) h
   = (h \<in> int ` set ks \<or> mm_requested (Some m0) h)"
proof (induction ks arbitrary: m0)
  case Nil
  then show ?case by simp
next
  case (Cons k ks)
  have "mm_requested (Some (foldl (\<lambda>m k. m(int k \<mapsto> True)) m0 (k # ks))) h
      = mm_requested (Some (foldl (\<lambda>m k. m(int k \<mapsto> True)) (m0(int k \<mapsto> True)) ks)) h"
    by simp
  also have "\<dots> = (h \<in> int ` set ks \<or> mm_requested (Some (m0(int k \<mapsto> True))) h)"
    by (rule Cons.IH)
  also have "\<dots> = (h \<in> int ` set (k # ks) \<or> mm_requested (Some m0) h)"
    by (auto simp: mm_requested_upd)
  finally show ?case .
qed

lemma mm_requested_fresh:
  "mm_requested (Some (foldl (\<lambda>m k. m(int k \<mapsto> True)) [int (length l) \<mapsto> True] (nil_slots l))) h
   = (h = int (length l) \<or> (0 \<le> h \<and> h < int (length l) \<and> l ! nat h = None))"
proof -
  have "(h \<in> int ` {k. k < length l \<and> l ! k = None})
        = (0 \<le> h \<and> h < int (length l) \<and> l ! nat h = None)"
  proof
    assume "h \<in> int ` {k. k < length l \<and> l ! k = None}"
    then obtain k where "h = int k" "k < length l" "l ! k = None" by blast
    then show "0 \<le> h \<and> h < int (length l) \<and> l ! nat h = None" by simp
  next
    assume a: "0 \<le> h \<and> h < int (length l) \<and> l ! nat h = None"
    then have "nat h < length l" by linarith
    with a have "nat h < length l \<and> l ! nat h = None \<and> h = int (nat h)" by simp
    then show "h \<in> int ` {k. k < length l \<and> l ! k = None}" by blast
  qed
  moreover have "mm_requested (Some [int (length l) \<mapsto> True]) h = (h = int (length l))"
    by (simp add: mm_requested_def)
  ultimately show ?thesis
    by (simp only: mm_requested_fold set_nil_slots) blast
qed

text \<open>
  C8 (as amended): for a VM whose \<open>MMRequests\<close> records height \<open>h\<close>, \<open>Ask(i, h)\<close> less
  than 2000 ms after \<open>MM_AskTime\<close> changes nothing and sends nothing; 2000 ms or more
  after, it also does nothing while the inbound queue is longer than
  \<open>INMSGQUEUE_MED\<close>; otherwise it sends one MissingMsg for \<open>len(List)\<close> and every nil
  slot, sets \<open>MM_AskTime\<close> to now, makes \<open>MMRequests\<close> a map holding exactly \<open>len(List)\<close>
  and the nil slots, and adds one to \<open>MissingRequestAskCnt\<close>.
\<close>

theorem Ask_throttle:
  assumes "0 \<le> i" and "i < int (length (VMs p))"
    and "mm_requested (MMRequests (VMs p ! nat i)) h"
  shows
    "(sint (GetTimeMilli (Now (State p)) - MM_AskTime (VMs p ! nat i)) < 2000 \<longrightarrow>
        Ask env p i h = Inr p)
     \<and> (2000 \<le> sint (GetTimeMilli (Now (State p)) - MM_AskTime (VMs p ! nat i))
          \<and> INMSGQUEUE_MED env < inMsgQueueLength (State p) \<longrightarrow>
        Ask env p i h = Inr p)
     \<and> (2000 \<le> sint (GetTimeMilli (Now (State p)) - MM_AskTime (VMs p ! nat i))
          \<and> inMsgQueueLength (State p) \<le> INMSGQUEUE_MED env \<longrightarrow>
        (\<exists>p'. Ask env p i h = Inr p'
           \<and> Outbound (State p') =
               Outbound (State p)
               @ [OutMissingMsg
                    \<lparr>mmVMIndex = i, mmDBHeight = DBHeight p,
                     mmProcessListHeight =
                       of_nat (length (List (VMs p ! nat i)))
                       # map of_nat (nil_slots (List (VMs p ! nat i)))\<rparr>]
           \<and> set (nil_slots (List (VMs p ! nat i)))
               = {k. k < length (List (VMs p ! nat i)) \<and> List (VMs p ! nat i) ! k = None}
           \<and> MM_AskTime (VMs p' ! nat i) = GetTimeMilli (Now (State p))
           \<and> MMRequests (VMs p' ! nat i) \<noteq> None
           \<and> (\<forall>k. mm_requested (MMRequests (VMs p' ! nat i)) k =
                  (k = int (length (List (VMs p ! nat i)))
                   \<or> (0 \<le> k \<and> k < int (length (List (VMs p ! nat i)))
                       \<and> List (VMs p ! nat i) ! nat k = None)))
           \<and> MissingRequestAskCnt (State p') = MissingRequestAskCnt (State p) + 1
           \<and> List (VMs p' ! nat i) = List (VMs p ! nat i)))"
proof (intro conjI impI)
  assume "sint (GetTimeMilli (Now (State p)) - MM_AskTime (VMs p ! nat i)) < 2000"
  with assms show "Ask env p i h = Inr p"
    by (auto simp: Ask_def Let_def mm_requested_def)
next
  assume "2000 \<le> sint (GetTimeMilli (Now (State p)) - MM_AskTime (VMs p ! nat i))
          \<and> INMSGQUEUE_MED env < inMsgQueueLength (State p)"
  with assms show "Ask env p i h = Inr p"
    by (simp add: Ask_def Let_def)
next
  assume a: "2000 \<le> sint (GetTimeMilli (Now (State p)) - MM_AskTime (VMs p ! nat i))
          \<and> inMsgQueueLength (State p) \<le> INMSGQUEUE_MED env"
  let ?vm = "VMs p ! nat i"
  let ?l = "List ?vm"
  let ?vm' = "?vm\<lparr>MM_AskTime := GetTimeMilli (Now (State p)),
                  MMRequests := Some (foldl (\<lambda>m k. m(int k \<mapsto> True))
                                      [int (length ?l) \<mapsto> True] (nil_slots ?l))\<rparr>"
  let ?p' = "p\<lparr>VMs := (VMs p)[nat i := ?vm'],
               State := (State p)
                 \<lparr>Outbound := Outbound (State p)
                    @ [OutMissingMsg
                         \<lparr>mmVMIndex = i, mmDBHeight = DBHeight p,
                          mmProcessListHeight = of_nat (length ?l) # map of_nat (nil_slots ?l)\<rparr>],
                  MissingRequestAskCnt := MissingRequestAskCnt (State p) + 1\<rparr>\<rparr>"
  have r: "Ask env p i h = Inr ?p'"
    using assms a by (simp add: Ask_def Let_def NewMissingMsg_def)
  have n: "nat i < length (VMs p)" using assms by simp
  have v: "VMs ?p' ! nat i = ?vm'" using n by simp
  show "\<exists>p'. Ask env p i h = Inr p'
           \<and> Outbound (State p') =
               Outbound (State p)
               @ [OutMissingMsg
                    \<lparr>mmVMIndex = i, mmDBHeight = DBHeight p,
                     mmProcessListHeight =
                       of_nat (length (List (VMs p ! nat i)))
                       # map of_nat (nil_slots (List (VMs p ! nat i)))\<rparr>]
           \<and> set (nil_slots (List (VMs p ! nat i)))
               = {k. k < length (List (VMs p ! nat i)) \<and> List (VMs p ! nat i) ! k = None}
           \<and> MM_AskTime (VMs p' ! nat i) = GetTimeMilli (Now (State p))
           \<and> MMRequests (VMs p' ! nat i) \<noteq> None
           \<and> (\<forall>k. mm_requested (MMRequests (VMs p' ! nat i)) k =
                  (k = int (length (List (VMs p ! nat i)))
                   \<or> (0 \<le> k \<and> k < int (length (List (VMs p ! nat i)))
                       \<and> List (VMs p ! nat i) ! nat k = None)))
           \<and> MissingRequestAskCnt (State p') = MissingRequestAskCnt (State p) + 1
           \<and> List (VMs p' ! nat i) = List (VMs p ! nat i)"
    apply (rule exI [of _ ?p'])
    apply (simp only: r v)
    apply (simp add: set_nil_slots mm_requested_fresh)
    done
qed

theorem Ask_throttle_witness:
  "Ask ex_env ex_pl_asked 0 0 = Inr ex_pl_asked
   \<and> Outbound (State (projr (Ask ex_env ex_pl_due 0 0)))
       = [OutMissingMsg \<lparr>mmVMIndex = 0, mmDBHeight = 4, mmProcessListHeight = [2, 0]\<rparr>]
   \<and> MM_AskTime (VMs (projr (Ask ex_env ex_pl_due 0 0)) ! 0) = 200000
   \<and> MissingRequestAskCnt (State (projr (Ask ex_env ex_pl_due 0 0))) = 1
   \<and> Ask ex_env ex_pl_congested 0 0 = Inr ex_pl_congested"
proof -
  have a: "(0::int) \<le> 0" "0 < int (length (VMs ex_pl_asked))"
    "mm_requested (MMRequests (VMs ex_pl_asked ! nat 0)) 0"
    "sint (GetTimeMilli (Now (State ex_pl_asked)) - MM_AskTime (VMs ex_pl_asked ! nat 0)) < 2000"
    by (simp_all add: ex_pl_asked_def ex_pl_def ex_State_def ex_vm_asked_def GetTimeMilli_def
        mm_requested_def)
  have d: "(0::int) \<le> 0" "0 < int (length (VMs ex_pl_due))"
    "mm_requested (MMRequests (VMs ex_pl_due ! nat 0)) 0"
    "2000 \<le> sint (GetTimeMilli (Now (State ex_pl_due)) - MM_AskTime (VMs ex_pl_due ! nat 0))
     \<and> inMsgQueueLength (State ex_pl_due) \<le> INMSGQUEUE_MED ex_env"
    by (simp_all add: ex_pl_due_def ex_pl_def ex_State_def ex_vm_asked_def GetTimeMilli_def
        mm_requested_def ex_env_def)
  have c: "(0::int) \<le> 0" "0 < int (length (VMs ex_pl_congested))"
    "mm_requested (MMRequests (VMs ex_pl_congested ! nat 0)) 0"
    "2000 \<le> sint (GetTimeMilli (Now (State ex_pl_congested))
                  - MM_AskTime (VMs ex_pl_congested ! nat 0))
     \<and> INMSGQUEUE_MED ex_env < inMsgQueueLength (State ex_pl_congested)"
    by (simp_all add: ex_pl_congested_def ex_pl_due_def ex_pl_def ex_State_def ex_vm_asked_def
        GetTimeMilli_def mm_requested_def ex_env_def)
  have l: "List (VMs ex_pl_due ! 0) = [None, Some (ex_msg [9])]"
    "Outbound (State ex_pl_due) = []" "DBHeight ex_pl_due = 4"
    "GetTimeMilli (Now (State ex_pl_due)) = 200000"
    "MissingRequestAskCnt (State ex_pl_due) = 0"
    by (simp_all add: ex_pl_due_def ex_pl_def ex_State_def ex_vm_asked_def NewVM_def
        GetTimeMilli_def)
  have n: "nil_slots [None, Some (ex_msg [9])] = [0]"
    by (simp add: nil_slots_def upt_rec)
  from Ask_throttle [OF a(1-3), of ex_env] a(4)
  have 1: "Ask ex_env ex_pl_asked 0 0 = Inr ex_pl_asked" by blast
  from Ask_throttle [OF c(1-3), of ex_env] c(4)
  have 3: "Ask ex_env ex_pl_congested 0 0 = Inr ex_pl_congested" by blast
  from Ask_throttle [OF d(1-3), of ex_env] d(4)
  obtain p' where p': "Ask ex_env ex_pl_due 0 0 = Inr p'"
    "Outbound (State p') =
               Outbound (State ex_pl_due)
               @ [OutMissingMsg
                    \<lparr>mmVMIndex = 0, mmDBHeight = DBHeight ex_pl_due,
                     mmProcessListHeight =
                       of_nat (length (List (VMs ex_pl_due ! nat 0)))
                       # map of_nat (nil_slots (List (VMs ex_pl_due ! nat 0)))\<rparr>]"
    "MM_AskTime (VMs p' ! nat 0) = GetTimeMilli (Now (State ex_pl_due))"
    "MissingRequestAskCnt (State p') = MissingRequestAskCnt (State ex_pl_due) + 1"
    by blast
  from p' have 2: "Outbound (State (projr (Ask ex_env ex_pl_due 0 0)))
       = [OutMissingMsg \<lparr>mmVMIndex = 0, mmDBHeight = 4, mmProcessListHeight = [2, 0]\<rparr>]"
    "MM_AskTime (VMs (projr (Ask ex_env ex_pl_due 0 0)) ! 0) = 200000"
    "MissingRequestAskCnt (State (projr (Ask ex_env ex_pl_due 0 0))) = 1"
    by (simp_all add: l n)
  from 1 2 3 show ?thesis by blast
qed

text \<open>
  With 51 messages in the inbound queue, a call 2100 ms after the last request for a
  recorded height sends nothing.
\<close>

theorem Ask_throttle_counterexample:
  "mm_requested (MMRequests (VMs ex_pl_congested ! 0)) 0
   \<and> 2000 \<le> sint (GetTimeMilli (Now (State ex_pl_congested))
                  - MM_AskTime (VMs ex_pl_congested ! 0))
   \<and> Ask ex_env ex_pl_congested 0 0 = Inr ex_pl_congested
   \<and> Outbound (State ex_pl_congested) = []"
  by (simp add: Ask_def Let_def ex_pl_congested_def ex_pl_due_def ex_pl_def ex_State_def
      ex_vm_asked_def GetTimeMilli_def mm_requested_def ex_env_def)

subsection \<open>AddToProcessList\<close>

lemma VMs_toss [simp]: "VMs (toss ack p) = VMs p"
  by (simp add: toss_def)

lemma State_toss_fixed [simp]:
  "IdentityChainID (State (toss ack p)) = IdentityChainID (State p)"
  "GetSalt (State (toss ack p)) = GetSalt (State p)"
  "DBHeight (toss ack p) = DBHeight p"
  by (simp_all add: toss_def)

text \<open>
  C3 (as amended): for a call with an acknowledgement whose \<open>GetMsgHash()\<close> is not nil,
  that is no response and names this node as leader: if the whole seconds of now
  exceed those of the acknowledgement's timestamp by more than 120, the call returns
  and no VM has changed; otherwise, if \<open>GetSalt\<close> of the timestamp is not the
  acknowledgement's salt number, the call panics with the duplicate-identity message.
\<close>

theorem AddToProcessList_self_check:
  assumes "aMsgHash ack \<noteq> None" and "\<not> aResponse ack"
    and "aLeaderChainID ack = IdentityChainID (State p)"
  shows
    "(120 < sint (GetTimeSeconds (Now (State p)) - GetTimeSeconds (aTimestamp ack)) \<longrightarrow>
        (\<exists>p'. AddToProcessList env p (Some ack) mo = Inr p' \<and> VMs p' = VMs p))
     \<and> (\<not> 120 < sint (GetTimeSeconds (Now (State p)) - GetTimeSeconds (aTimestamp ack))
          \<and> GetSalt (State p) (aTimestamp ack) \<noteq> aSaltNumber ack \<longrightarrow>
        AddToProcessList env p (Some ack) mo =
          Inl (Panic ''There are two leaders configured with the same Identity in this network!  This is a configuration problem!''))"
  using assms by (simp add: AddToProcessList_def Let_def)

theorem AddToProcessList_self_check_witness:
  "AddToProcessList ex_env ex_pl (Some ex_ack_self) (Some (ex_msg [9])) =
     Inl (Panic ''There are two leaders configured with the same Identity in this network!  This is a configuration problem!'')
   \<and> VMs (projr (AddToProcessList ex_env ex_pl (Some ex_ack_stale) (Some (ex_msg [9])))) = VMs ex_pl"
proof -
  have a: "aMsgHash ex_ack_self \<noteq> None" "\<not> aResponse ex_ack_self"
    "aLeaderChainID ex_ack_self = IdentityChainID (State ex_pl)"
    "\<not> 120 < sint (GetTimeSeconds (Now (State ex_pl)) - GetTimeSeconds (aTimestamp ex_ack_self))
     \<and> GetSalt (State ex_pl) (aTimestamp ex_ack_self) \<noteq> aSaltNumber ex_ack_self"
    by (simp_all add: ex_ack_self_def ex_Ack_def ex_pl_def ex_State_def GetTimeSeconds_def)
  have b: "aMsgHash ex_ack_stale \<noteq> None" "\<not> aResponse ex_ack_stale"
    "aLeaderChainID ex_ack_stale = IdentityChainID (State ex_pl)"
    "120 < sint (GetTimeSeconds (Now (State ex_pl)) - GetTimeSeconds (aTimestamp ex_ack_stale))"
    by (simp_all add: ex_ack_stale_def ex_ack_self_def ex_Ack_def ex_pl_def ex_State_def
        GetTimeSeconds_def)
  from AddToProcessList_self_check [OF a(1-3), of ex_env "Some (ex_msg [9])"] a(4)
  have 1: "AddToProcessList ex_env ex_pl (Some ex_ack_self) (Some (ex_msg [9])) =
     Inl (Panic ''There are two leaders configured with the same Identity in this network!  This is a configuration problem!'')"
    by blast
  from AddToProcessList_self_check [OF b(1-3), of ex_env "Some (ex_msg [9])"] b(4)
  obtain p' where "AddToProcessList ex_env ex_pl (Some ex_ack_stale) (Some (ex_msg [9])) = Inr p'"
    "VMs p' = VMs ex_pl" by blast
  then have "VMs (projr (AddToProcessList ex_env ex_pl (Some ex_ack_stale) (Some (ex_msg [9])))) = VMs ex_pl"
    by simp
  with 1 show ?thesis by blast
qed

text \<open>
  An acknowledgement without a message hash is dropped before the identity check:
  fresh, written by this node and with the wrong salt number, it does not stop the node.
\<close>

theorem AddToProcessList_self_check_counterexample:
  "\<not> aResponse ex_ack_nohash
   \<and> aLeaderChainID ex_ack_nohash = IdentityChainID (State ex_pl)
   \<and> \<not> 120 < sint (GetTimeSeconds (Now (State ex_pl)) - GetTimeSeconds (aTimestamp ex_ack_nohash))
   \<and> GetSalt (State ex_pl) (aTimestamp ex_ack_nohash) \<noteq> aSaltNumber ex_ack_nohash
   \<and> AddToProcessList ex_env ex_pl (Some ex_ack_nohash) (Some (ex_msg [9])) = Inr ex_pl"
  by (simp add: AddToProcessList_def ex_ack_nohash_def ex_ack_self_def ex_Ack_def ex_pl_def
      ex_State_def GetTimeSeconds_def)

text \<open>What a call that fills a free slot has checked, and what it leaves.\<close>

lemma AddToProcessList_recorded:
  assumes first: "AddToProcessList env p (Some ack) (Some m) = Inr p1"
    and free: "\<not> slot_filled (VMs p ! nat (aVMIndex ack)) ack"
    and stored: "slot_filled (VMs p1 ! nat (aVMIndex ack)) ack"
  shows "aMsgHash ack \<noteq> None
    \<and> (\<not> aResponse ack \<and> aLeaderChainID ack = IdentityChainID (State p) \<longrightarrow>
         GetSalt (State p) (aTimestamp ack) = aSaltNumber ack)
    \<and> 0 \<le> aVMIndex ack \<and> aVMIndex ack < int (length (VMs p))
    \<and> aDBHeight ack = DBHeight p
    \<and> DBHeight p1 = DBHeight p
    \<and> IdentityChainID (State p1) = IdentityChainID (State p)
    \<and> GetSalt (State p1) = GetSalt (State p)
    \<and> length (VMs p1) = length (VMs p)
    \<and> unat (aHeight ack) < length (List (VMs p1 ! nat (aVMIndex ack)))
    \<and> List (VMs p1 ! nat (aVMIndex ack)) ! unat (aHeight ack)
        = Some (m\<lparr>mLocal := False, mPeer2Peer := False\<rparr>)
    \<and> ListAck (VMs p1 ! nat (aVMIndex ack)) ! unat (aHeight ack)
        = Some (ack\<lparr>aLocal := False, aPeer2Peer := False\<rparr>)"
proof -
  let ?p = "if HighestAck (State p) < aDBHeight ack \<and> 0 < aMinute ack
            then p\<lparr>State := (State p)\<lparr>HighestAck := aDBHeight ack\<rparr>\<rparr> else p"
  have v: "VMs ?p = VMs p" "DBHeight ?p = DBHeight p"
    "IdentityChainID (State ?p) = IdentityChainID (State p)"
    "GetSalt (State ?p) = GetSalt (State p)"
    by simp_all
  have r: "aMsgHash ack \<noteq> None
    \<and> (\<not> aResponse ack \<and> aLeaderChainID ack = IdentityChainID (State p) \<longrightarrow>
         GetSalt (State p) (aTimestamp ack) = aSaltNumber ack)
    \<and> 0 \<le> aVMIndex ack \<and> aVMIndex ack < int (length (VMs p))
    \<and> aDBHeight ack = DBHeight p
    \<and> AddToProcessList_record ?p ack (Some m) = Inr p1"
    using first free stored unfolding AddToProcessList_def Let_def v
    by (auto split: if_splits simp: update_vm_def)
  then have rec: "AddToProcessList_record ?p ack (Some m) = Inr p1" 
    and i: "nat (aVMIndex ack) < length (VMs p)" by auto
  from rec i v have
    "DBHeight p1 = DBHeight p \<and> IdentityChainID (State p1) = IdentityChainID (State p)
     \<and> GetSalt (State p1) = GetSalt (State p) \<and> length (VMs p1) = length (VMs p)
     \<and> unat (aHeight ack) < length (List (VMs p1 ! nat (aVMIndex ack)))
     \<and> List (VMs p1 ! nat (aVMIndex ack)) ! unat (aHeight ack)
        = Some (m\<lparr>mLocal := False, mPeer2Peer := False\<rparr>)
     \<and> ListAck (VMs p1 ! nat (aVMIndex ack)) ! unat (aHeight ack)
        = Some (ack\<lparr>aLocal := False, aPeer2Peer := False\<rparr>)"
    unfolding AddToProcessList_record_def Let_def
    by (auto split: if_splits)
  with r show ?thesis by blast
qed

text \<open>
  C4: once a call has stored \<open>(ack, m)\<close> in a free slot, a later call with the same
  acknowledgement and message (as passed the first time or as stored, whatever the
  clock, the replay filter and the look-asides have become) returns without a panic
  and leaves every VM as it is: the slot holds the message and the acknowledgement,
  the lists have not grown, the height is the same.
\<close>

theorem AddToProcessList_duplicate:
  assumes first: "AddToProcessList env p (Some ack) (Some m) = Inr p1"
    and free: "\<not> slot_filled (VMs p ! nat (aVMIndex ack)) ack"
    and stored: "slot_filled (VMs p1 ! nat (aVMIndex ack)) ack"
    and same: "IdentityChainID st = IdentityChainID (State p1)" "GetSalt st = GetSalt (State p1)"
  shows "\<exists>p2. AddToProcessList env2 (p1\<lparr>State := st\<rparr>)
                 (Some (ack\<lparr>aLocal := l, aPeer2Peer := q\<rparr>))
                 (Some (m\<lparr>mLocal := l', mPeer2Peer := q'\<rparr>)) = Inr p2
          \<and> VMs p2 = VMs p1
          \<and> List (VMs p2 ! nat (aVMIndex ack)) ! unat (aHeight ack)
              = Some (m\<lparr>mLocal := False, mPeer2Peer := False\<rparr>)
          \<and> ListAck (VMs p2 ! nat (aVMIndex ack)) ! unat (aHeight ack)
              = Some (ack\<lparr>aLocal := False, aPeer2Peer := False\<rparr>)"
proof -
  note r = AddToProcessList_recorded [OF first free stored]
  let ?ack = "ack\<lparr>aLocal := l, aPeer2Peer := q\<rparr>"
  let ?m = "m\<lparr>mLocal := l', mPeer2Peer := q'\<rparr>"
  let ?p1 = "p1\<lparr>State := st\<rparr>"
  have f: "slot_filled (VMs p1 ! nat (aVMIndex ack)) ?ack"
    using stored by (simp add: slot_filled_def)
  have "AddToProcessList env2 ?p1 (Some ?ack) (Some ?m) = Inr ?p1
        \<or> AddToProcessList env2 ?p1 (Some ?ack) (Some ?m)
            = Inr (?p1\<lparr>State := st\<lparr>HighestAck := aDBHeight ack\<rparr>\<rparr>)
        \<or> AddToProcessList env2 ?p1 (Some ?ack) (Some ?m) = Inr (toss ?ack ?p1)
        \<or> AddToProcessList env2 ?p1 (Some ?ack) (Some ?m)
            = Inr (toss ?ack (?p1\<lparr>State := st\<lparr>HighestAck := aDBHeight ack\<rparr>\<rparr>))"
    using r f same unfolding AddToProcessList_def Let_def
    by (auto split: if_splits)
  then obtain p2 where "AddToProcessList env2 ?p1 (Some ?ack) (Some ?m) = Inr p2" "VMs p2 = VMs p1"
    by auto
  with r show ?thesis by auto
qed

theorem AddToProcessList_duplicate_witness:
  "AddToProcessList ex_env ex_pl (Some (ex_Ack 0 [9] [9])) (Some (ex_msg [9])) = Inr ex_pl_admitted
   \<and> VMs (projr (AddToProcessList ex_env ex_pl_admitted (Some (ex_Ack 0 [9] [9]))
                  (Some (ex_msg [9])))) = VMs ex_pl_admitted
   \<and> List (VMs ex_pl_admitted ! 0) = [Some (ex_msg [9])]
   \<and> ListAck (VMs ex_pl_admitted ! 0) = [Some (ex_Ack 0 [9] [9])]"
proof -
  have first: "AddToProcessList ex_env ex_pl (Some (ex_Ack 0 [9] [9])) (Some (ex_msg [9]))
      = Inr ex_pl_admitted"
    by (simp add: AddToProcessList_def AddToProcessList_record_def Let_def slot_filled_def
        ex_pl_admitted_def ex_pl_def ex_State_def ex_Ack_def ex_msg_def NewVM_def ex_env_def)
  have free: "\<not> slot_filled (VMs ex_pl ! nat (aVMIndex (ex_Ack 0 [9] [9]))) (ex_Ack 0 [9] [9])"
    by (simp add: slot_filled_def ex_pl_def ex_Ack_def NewVM_def)
  have stored: "slot_filled (VMs ex_pl_admitted ! nat (aVMIndex (ex_Ack 0 [9] [9]))) (ex_Ack 0 [9] [9])"
    by (simp add: slot_filled_def ex_pl_admitted_def ex_Ack_def)
  have fl: "(ex_Ack 0 [9] [9])\<lparr>aLocal := False, aPeer2Peer := False\<rparr> = ex_Ack 0 [9] [9]"
    "(ex_msg [9])\<lparr>mLocal := False, mPeer2Peer := False\<rparr> = ex_msg [9]"
    by (simp_all add: ex_Ack_def ex_msg_def)
  from AddToProcessList_duplicate [OF first free stored refl refl, of ex_env False False False False]
  obtain p2 where "AddToProcessList ex_env ex_pl_admitted (Some (ex_Ack 0 [9] [9]))
                  (Some (ex_msg [9])) = Inr p2" "VMs p2 = VMs ex_pl_admitted"
    by (auto simp: fl)
  then have "VMs (projr (AddToProcessList ex_env ex_pl_admitted (Some (ex_Ack 0 [9] [9]))
                  (Some (ex_msg [9])))) = VMs ex_pl_admitted" by simp
  moreover have "List (VMs ex_pl_admitted ! 0) = [Some (ex_msg [9])]"
    "ListAck (VMs ex_pl_admitted ! 0) = [Some (ex_Ack 0 [9] [9])]"
    by (simp_all add: ex_pl_admitted_def)
  ultimately show ?thesis using first by blast
qed

subsection \<open>Process: a serial hash that does not match\<close>

lemma VMListLoop_Return:
  assumes "j < int (length (List (VMs p ! i)))" and "ProcessSlot env p i j = Inr (Return p')"
  shows "VMListLoop env p i j progress = Inr (p', progress, True)"
  using assms by (simp add: VMListLoop.simps [of env p])

lemma VMListLoop_Advance:
  assumes "j < int (length (List (VMs p ! i)))" and "ProcessSlot env p i j = Inr (Advance p')"
  shows "VMListLoop env p i j progress = VMListLoop env p' i (j + 1) True"
  using assms by (simp add: VMListLoop.simps [of env p])

text \<open>
  \<open>Process_from_slot\<close> is the rest of the loop of Process: it is what the loop over the
  VMs does after the requests for VM \<open>i\<close>, and what is left after a slot was processed.
  It serves the proofs only; the theorem below is about Process.
\<close>

lemma ProcessLoop_from_slot:
  assumes "i < length (FedServers p)" and "i < length (VMs p)"
    and "Process_asks env now (Process_faults env p i) i = Inr p1"
  shows "ProcessLoop env now p i progress
         = Process_from_slot env now p1 i (Height (VMs p1 ! i)) progress"
  using assms by (simp add: ProcessLoop.simps [of env now p] Process_from_slot_def)

lemma Process_from_slot_Advance:
  assumes "j < int (length (List (VMs p ! i)))" and "ProcessSlot env p i j = Inr (Advance p')"
  shows "Process_from_slot env now p i j progress = Process_from_slot env now p' i (j + 1) True"
  using assms by (simp add: Process_from_slot_def VMListLoop_Advance)

lemma Process_from_slot_mismatch:
  assumes "Height (VMs p ! i) = j" and "1 \<le> j"
    and "j < int (length (List (VMs p ! i)))"
    and "List (VMs p ! i) ! nat j = Some msg"
    and "j < int (length (ListAck (VMs p ! i)))"
    and "ListAck (VMs p ! i) ! nat j = Some thisAck"
    and "ListAck (VMs p ! i) ! nat (j - 1) = Some lastAck"
    and "CreateHash env (aMessageHash lastAck) (aMessageHash thisAck) = Some expected"
    and "expected \<noteq> aSerialHash thisAck"
  shows "Process_from_slot env now p i j progress
           = Inr (p\<lparr>State := State_Reset (State p)\<rparr>, progress)"
proof -
  have "SerialHashCheck env (VMs p ! i) (ListAck (VMs p ! i) ! nat j) = Inr SerialMismatch"
    using assms by (simp add: SerialHashCheck_def)
  then have "ProcessSlot env p i j = Inr (Return (p\<lparr>State := State_Reset (State p)\<rparr>))"
    using assms by (simp add: ProcessSlot_def)
  then have "VMListLoop env p i j progress
             = Inr (p\<lparr>State := State_Reset (State p)\<rparr>, progress, True)"
    using assms(3) by (rule VMListLoop_Return [rotated])
  then show ?thesis by (simp add: Process_from_slot_def)
qed

text \<open>A step of the loops leaves the rest of the call as it is.\<close>

lemma Process_step_from_slot:
  assumes "Process_step env now x y"
  shows "(case x of (p, i, j, pr) \<Rightarrow> Process_from_slot env now p i j pr)
         = (case y of (p, i, j, pr) \<Rightarrow> Process_from_slot env now p i j pr)"
  using assms
proof cases
  case (advance j p i p' progress)
  then show ?thesis by (simp add: Process_from_slot_Advance)
next
  case (next_vm p i j progress p2 progress' p3)
  from next_vm(3) have "Process_from_slot env now p i j progress
      = ProcessLoop env now p2 (i + 1) progress'"
    by (simp add: Process_from_slot_def)
  also have "\<dots> = Process_from_slot env now p3 (Suc i) (Height (VMs p3 ! Suc i)) progress'"
    using ProcessLoop_from_slot [of "Suc i" p2 env now p3 progress'] next_vm(4-6) by simp
  finally show ?thesis using next_vm(1,2) by simp
qed

lemma Process_steps_from_slot:
  assumes "(Process_step env now)\<^sup>*\<^sup>* x y"
  shows "(case x of (p, i, j, pr) \<Rightarrow> Process_from_slot env now p i j pr)
         = (case y of (p, i, j, pr) \<Rightarrow> Process_from_slot env now p i j pr)"
  using assms
proof (induction rule: rtranclp_induct)
  case base
  show ?case by simp
next
  case (step y z)
  from step.IH Process_step_from_slot [OF step.hyps(2)] show ?case by simp
qed

text \<open>
  C1: in a call of Process on a list whose block is not saved, when the loops reach
  VM \<open>i\<close> at a filled slot \<open>j = vm.Height \<ge> 1\<close> and the hash of the message hashes of
  slots \<open>j - 1\<close> and \<open>j\<close> is not the serial hash of slot \<open>j\<close>, Process calls
  \<open>State.Reset()\<close> once and returns at once: its result is the process list as it was
  at that place, with the reset recorded, and \<open>progress\<close> as it was there; no VM has
  changed since, the height of VM \<open>i\<close> is still \<open>j\<close>, and no later VM is visited.
\<close>

theorem Process_serial_mismatch:
  assumes "\<not> DBHeight p \<le> HighestSavedBlk (State p)"
    and "0 < length (FedServers p)" and "0 < length (VMs p)"
    and "Process_asks env (Now (State p))
           (Process_faults env (p\<lparr>State := (State p)\<lparr>PLProcessHeight := DBHeight p\<rparr>\<rparr>) 0) 0
         = Inr p1"
    and "(Process_step env (Now (State p)))\<^sup>*\<^sup>*
           (p1, 0, Height (VMs p1 ! 0), False) (q, i, j, progress)"
    and "Height (VMs q ! i) = j" and "1 \<le> j"
    and "j < int (length (List (VMs q ! i)))"
    and "List (VMs q ! i) ! nat j = Some msg"
    and "j < int (length (ListAck (VMs q ! i)))"
    and "ListAck (VMs q ! i) ! nat j = Some thisAck"
    and "ListAck (VMs q ! i) ! nat (j - 1) = Some lastAck"
    and "CreateHash env (aMessageHash lastAck) (aMessageHash thisAck) = Some expected"
    and "expected \<noteq> aSerialHash thisAck"
  shows "Process env p = Inr (q\<lparr>State := State_Reset (State q)\<rparr>, progress)
         \<and> ResetCalls (State (q\<lparr>State := State_Reset (State q)\<rparr>)) = ResetCalls (State q) + 1
         \<and> VMs (q\<lparr>State := State_Reset (State q)\<rparr>) = VMs q
         \<and> Height (VMs (q\<lparr>State := State_Reset (State q)\<rparr>) ! i) = j"
proof -
  let ?p0 = "p\<lparr>State := (State p)\<lparr>PLProcessHeight := DBHeight p\<rparr>\<rparr>"
  let ?now = "Now (State p)"
  have "Process env p = ProcessLoop env ?now ?p0 0 False"
    using assms(1) by (simp add: Process_def Let_def)
  also have "\<dots> = Process_from_slot env ?now p1 0 (Height (VMs p1 ! 0)) False"
    using ProcessLoop_from_slot [of 0 ?p0 env ?now p1 False] assms(2,3,4) by simp
  also have "\<dots> = Process_from_slot env ?now q i j progress"
    using Process_steps_from_slot [OF assms(5)] by simp
  also have "\<dots> = Inr (q\<lparr>State := State_Reset (State q)\<rparr>, progress)"
    using assms(6-14) by (rule Process_from_slot_mismatch)
  finally show ?thesis using assms(6) by (simp add: State_Reset_def)
qed

text \<open>
  Two runs: the mismatch at the first slot that the loop of VM 0 looks at, and the
  mismatch reached after slot 0 was processed. In both the fault flags show that VM 1
  and VM 2 were not visited.
\<close>

theorem Process_serial_mismatch_witness:
  "\<not> isl (Process ex_env ex_pl_chain)
   \<and> snd (projr (Process ex_env ex_pl_chain)) = False
   \<and> ResetCalls (State (fst (projr (Process ex_env ex_pl_chain)))) = 1
   \<and> map Height (VMs (fst (projr (Process ex_env ex_pl_chain)))) = [1, 0, 0]
   \<and> map FaultFlag (VMs (fst (projr (Process ex_env ex_pl_chain)))) = [- 1, 0, 0]
   \<and> \<not> isl (Process ex_env ex_pl_chain0)
   \<and> snd (projr (Process ex_env ex_pl_chain0)) = True
   \<and> ResetCalls (State (fst (projr (Process ex_env ex_pl_chain0)))) = 1
   \<and> map Height (VMs (fst (projr (Process ex_env ex_pl_chain0)))) = [1, 0, 0]
   \<and> map FaultFlag (VMs (fst (projr (Process ex_env ex_pl_chain0)))) = [- 1, 0, 0]"
proof -
  define q where
    "q = Process_faults ex_env
           (ex_pl_chain\<lparr>State := (State ex_pl_chain)\<lparr>PLProcessHeight := DBHeight ex_pl_chain\<rparr>\<rparr>) 0"
  have vm: "VMs q = [(NewVM 0)
                  \<lparr>List := [Some (ex_msg [8]), Some (ex_msg [9])],
                   ListAck := [Some (ex_Ack 0 [8] [8]), Some (ex_Ack 1 [9] [9])],
                   Height := 1, WhenFaulted := 0, FaultFlag := - 1\<rparr>,
                NewVM 0, NewVM 0]"
    and st: "ResetCalls (State q) = 0" "Syncing (State q) = False"
    by (simp_all add: q_def Process_faults_def markNoFault_def update_vm_def ex_pl_chain_def
        ex_pl_def ex_State_def ex_env_def Let_def)
  have h: "\<not> DBHeight ex_pl_chain \<le> HighestSavedBlk (State ex_pl_chain)"
    "0 < length (FedServers ex_pl_chain)" "0 < length (VMs ex_pl_chain)"
    "Now (State ex_pl_chain) = 200000"
    by (simp_all add: ex_pl_chain_def ex_pl_def ex_State_def)
  have asks: "Process_asks ex_env (Now (State ex_pl_chain))
           (Process_faults ex_env
              (ex_pl_chain\<lparr>State := (State ex_pl_chain)\<lparr>PLProcessHeight := DBHeight ex_pl_chain\<rparr>\<rparr>) 0) 0
         = Inr q"
    unfolding q_def [symmetric] by (simp add: Process_asks_def vm)
  have reach: "(Process_step ex_env (Now (State ex_pl_chain)))\<^sup>*\<^sup>*
      (q, 0, Height (VMs q ! 0), False) (q, 0, 1, False)"
    by (simp add: vm)
  have m: "Height (VMs q ! 0) = 1" "(1::int) \<le> 1"
    "(1::int) < int (length (List (VMs q ! 0)))"
    "List (VMs q ! 0) ! nat 1 = Some (ex_msg [9])"
    "(1::int) < int (length (ListAck (VMs q ! 0)))"
    "ListAck (VMs q ! 0) ! nat 1 = Some (ex_Ack 1 [9] [9])"
    "ListAck (VMs q ! 0) ! nat (1 - 1) = Some (ex_Ack 0 [8] [8])"
    "CreateHash ex_env (aMessageHash (ex_Ack 0 [8] [8])) (aMessageHash (ex_Ack 1 [9] [9])) = Some [8, 9]"
    "[8, 9] \<noteq> aSerialHash (ex_Ack 1 [9] [9])"
    by (simp_all add: vm ex_Ack_def ex_env_def)
  from Process_serial_mismatch [OF h(1-3) asks reach m]
  have "Process ex_env ex_pl_chain = Inr (q\<lparr>State := State_Reset (State q)\<rparr>, False)" by blast
  then have a: "\<not> isl (Process ex_env ex_pl_chain)
   \<and> snd (projr (Process ex_env ex_pl_chain)) = False
   \<and> ResetCalls (State (fst (projr (Process ex_env ex_pl_chain)))) = 1
   \<and> map Height (VMs (fst (projr (Process ex_env ex_pl_chain)))) = [1, 0, 0]
   \<and> map FaultFlag (VMs (fst (projr (Process ex_env ex_pl_chain)))) = [- 1, 0, 0]"
    by (simp add: vm st State_Reset_def NewVM_def)
  define p1 where
    "p1 = Process_faults ex_env
           (ex_pl_chain0\<lparr>State := (State ex_pl_chain0)\<lparr>PLProcessHeight := DBHeight ex_pl_chain0\<rparr>\<rparr>) 0"
  define r where
    "r = update_vm
             (update_vm (p1\<lparr>NextHeightToProcess := (NextHeightToProcess p1)[0 := 0 + 1]\<rparr>) 0
                (\<lambda>vm. vm\<lparr>ProcessTime := Now (State p1)\<rparr>)
              \<lparr>State := record_processed ex_env (ex_msg [8]) (Now (State p1)) (State p1)\<rparr>)
             0 (\<lambda>vm. vm\<lparr>heartBeat := 0, Height := 0 + 1\<rparr>)"
  have vm1: "VMs p1 = [(NewVM 0)
                  \<lparr>List := [Some (ex_msg [8]), Some (ex_msg [9])],
                   ListAck := [Some (ex_Ack 0 [8] [8]), Some (ex_Ack 1 [9] [9])],
                   WhenFaulted := 0, FaultFlag := - 1\<rparr>,
                NewVM 0, NewVM 0]"
    and st1: "State p1 = ex_State\<lparr>PLProcessHeight := 4\<rparr>" "DBHeight p1 = 4"
      "NextHeightToProcess p1 = replicate 64 0"
    by (simp_all add: p1_def Process_faults_def markNoFault_def update_vm_def ex_pl_chain0_def
        ex_pl_def ex_State_def ex_env_def Let_def)
  have vmr: "VMs r = [(NewVM 0)
                  \<lparr>List := [Some (ex_msg [8]), Some (ex_msg [9])],
                   ListAck := [Some (ex_Ack 0 [8] [8]), Some (ex_Ack 1 [9] [9])],
                   WhenFaulted := 0, FaultFlag := - 1, ProcessTime := 200000,
                   heartBeat := 0, Height := 1\<rparr>,
                NewVM 0, NewVM 0]"
    and str: "ResetCalls (State r) = 0"
    by (simp_all add: r_def update_vm_def vm1 st1 record_processed_def ex_State_def Let_def)
  have h0: "\<not> DBHeight ex_pl_chain0 \<le> HighestSavedBlk (State ex_pl_chain0)"
    "0 < length (FedServers ex_pl_chain0)" "0 < length (VMs ex_pl_chain0)"
    "Now (State ex_pl_chain0) = 200000"
    by (simp_all add: ex_pl_chain0_def ex_pl_def ex_State_def)
  have asks0: "Process_asks ex_env (Now (State ex_pl_chain0))
           (Process_faults ex_env
              (ex_pl_chain0\<lparr>State := (State ex_pl_chain0)\<lparr>PLProcessHeight := DBHeight ex_pl_chain0\<rparr>\<rparr>) 0) 0
         = Inr p1"
    unfolding p1_def [symmetric] by (simp add: Process_asks_def vm1 NewVM_def)
  have slot: "ProcessSlot ex_env p1 0 0 = Inr (Advance r)"
    unfolding r_def
    by (simp add: ProcessSlot_def SerialHashCheck_def update_vm_def vm1 st1 NewVM_def
        ex_State_def ex_env_def Let_def)
  have "Process_step ex_env (Now (State ex_pl_chain0)) (p1, 0, 0, False) (r, 0, 0 + 1, True)"
    by (rule Process_step.advance [OF _ slot]) (simp add: vm1)
  then have reach0: "(Process_step ex_env (Now (State ex_pl_chain0)))\<^sup>*\<^sup>*
      (p1, 0, Height (VMs p1 ! 0), False) (r, 0, 1, True)"
    by (simp add: vm1 NewVM_def)
  have m0: "Height (VMs r ! 0) = 1" "(1::int) \<le> 1"
    "(1::int) < int (length (List (VMs r ! 0)))"
    "List (VMs r ! 0) ! nat 1 = Some (ex_msg [9])"
    "(1::int) < int (length (ListAck (VMs r ! 0)))"
    "ListAck (VMs r ! 0) ! nat 1 = Some (ex_Ack 1 [9] [9])"
    "ListAck (VMs r ! 0) ! nat (1 - 1) = Some (ex_Ack 0 [8] [8])"
    "CreateHash ex_env (aMessageHash (ex_Ack 0 [8] [8])) (aMessageHash (ex_Ack 1 [9] [9])) = Some [8, 9]"
    "[8, 9] \<noteq> aSerialHash (ex_Ack 1 [9] [9])"
    by (simp_all add: vmr ex_Ack_def ex_env_def)
  from Process_serial_mismatch [OF h0(1-3) asks0 reach0 m0]
  have "Process ex_env ex_pl_chain0 = Inr (r\<lparr>State := State_Reset (State r)\<rparr>, True)" by blast
  then have b: "\<not> isl (Process ex_env ex_pl_chain0)
   \<and> snd (projr (Process ex_env ex_pl_chain0)) = True
   \<and> ResetCalls (State (fst (projr (Process ex_env ex_pl_chain0)))) = 1
   \<and> map Height (VMs (fst (projr (Process ex_env ex_pl_chain0)))) = [1, 0, 0]
   \<and> map FaultFlag (VMs (fst (projr (Process ex_env ex_pl_chain0)))) = [- 1, 0, 0]"
    by (simp add: vmr str State_Reset_def NewVM_def)
  from a b show ?thesis by blast
qed

subsection \<open>The VM invariant\<close>

lemma pl_inv_nth: "pl_inv p \<Longrightarrow> i < length (VMs p) \<Longrightarrow> vm_inv (VMs p ! i)"
  by (simp add: pl_inv_def list_all_length)

lemma pl_inv_update:
  assumes "pl_inv p" and "vm_inv vm" and "VMs p' = (VMs p)[i := vm]"
  shows "pl_inv p'"
  unfolding pl_inv_def list_all_length
proof (intro allI impI)
  fix k assume "k < length (VMs p')"
  with assms(3) have k: "k < length (VMs p)" by simp
  show "vm_inv (VMs p' ! k)"
  proof (cases "k = i")
    case True
    with k assms(2,3) show ?thesis by simp
  next
    case False
    with k assms(1,3) show ?thesis by (simp add: pl_inv_def list_all_length)
  qed
qed

lemma pl_inv_update_vm:
  assumes "pl_inv p" and "i < length (VMs p) \<Longrightarrow> vm_inv (f (VMs p ! i))"
  shows "pl_inv (update_vm p i f)"
proof (cases "i < length (VMs p)")
  case True
  with assms show ?thesis
    by (rule_tac pl_inv_update [of p "f (VMs p ! i)" _ i]) (simp_all add: update_vm_def)
next
  case False
  then have "VMs (update_vm p i f) = VMs p" by (simp add: update_vm_def list_update_beyond)
  with assms(1) show ?thesis by (simp add: pl_inv_def)
qed

lemma pl_inv_State [simp]: "pl_inv (p\<lparr>State := st\<rparr>) = pl_inv p"
  by (simp add: pl_inv_def)

lemma pl_inv_NextHeightToProcess [simp]: "pl_inv (p\<lparr>NextHeightToProcess := x\<rparr>) = pl_inv p"
  by (simp add: pl_inv_def)

text \<open>Fields that the invariant does not read.\<close>

lemma vm_inv_other_fields [simp]:
  "vm_inv (vm\<lparr>MM_AskTime := t, MMRequests := r\<rparr>) = vm_inv vm"
  "vm_inv (vm\<lparr>WhenFaulted := w, FaultFlag := f\<rparr>) = vm_inv vm"
  "vm_inv (vm\<lparr>ProcessTime := t\<rparr>) = vm_inv vm"
  "vm_inv (vm\<lparr>heartBeat := b\<rparr>) = vm_inv vm"
  by (simp_all add: vm_inv_def)

lemma nth_clear: "(xs[j := None]) ! i \<noteq> None \<Longrightarrow> xs ! i \<noteq> None"
  by (cases "j < length xs") (auto simp: nth_list_update list_update_beyond split: if_splits)

lemma vm_inv_clear:
  assumes "vm_inv vm"
  shows "vm_inv (vm\<lparr>List := (List vm)[j := None]\<rparr>)"
  using assms nth_clear [of "List vm" j] by (simp add: vm_inv_def)

lemma vm_inv_advance:
  assumes "vm_inv vm" and "Height vm = j" and "j < int (length (List vm))"
    and "List vm ! nat j \<noteq> None"
  shows "vm_inv (vm\<lparr>heartBeat := 0, Height := j + 1\<rparr>)"
proof -
  from assms have j0: "0 \<le> j" by (simp add: vm_inv_def)
  from assms j0 have a: "ListAck vm ! nat j \<noteq> None"
    by (simp add: vm_inv_def nat_less_iff)
  have "ListAck vm ! i \<noteq> None" if "i < length (List vm)" "int i < j + 1" for i
  proof (cases "int i < j")
    case True
    with assms that show ?thesis by (simp add: vm_inv_def)
  next
    case False
    with that j0 have "i = nat j" by linarith
    with a show ?thesis by simp
  qed
  with assms j0 show ?thesis by (simp add: vm_inv_def)
qed

lemma Ask_VMs:
  assumes "Ask env p v h = Inr p'"
  shows "VMs p' = VMs p
         \<or> (0 \<le> v \<and> v < int (length (VMs p))
            \<and> VMs p' = (VMs p)[nat v := (VMs p ! nat v)
                 \<lparr>MM_AskTime := GetTimeMilli (Now (State p)),
                  MMRequests := Some (foldl (\<lambda>m k. m(int k \<mapsto> True))
                     [int (length (List (VMs p ! nat v))) \<mapsto> True]
                     (nil_slots (List (VMs p ! nat v))))\<rparr>])"
  using assms unfolding Ask_def Let_def by (auto split: if_splits)

lemma Ask_inv:
  assumes "Ask env p v h = Inr p'" and "pl_inv p"
  shows "pl_inv p' \<and> length (VMs p') = length (VMs p)
         \<and> (\<forall>k<length (VMs p). List (VMs p' ! k) = List (VMs p ! k)
               \<and> ListAck (VMs p' ! k) = ListAck (VMs p ! k)
               \<and> Height (VMs p' ! k) = Height (VMs p ! k))"
proof -
  let ?vm = "(VMs p ! nat v)
                 \<lparr>MM_AskTime := GetTimeMilli (Now (State p)),
                  MMRequests := Some (foldl (\<lambda>m k. m(int k \<mapsto> True))
                     [int (length (List (VMs p ! nat v))) \<mapsto> True]
                     (nil_slots (List (VMs p ! nat v))))\<rparr>"
  from Ask_VMs [OF assms(1)] consider
    (same) "VMs p' = VMs p"
    | (sent) "0 \<le> v" "v < int (length (VMs p))" "VMs p' = (VMs p)[nat v := ?vm]"
    by blast
  then show ?thesis
  proof cases
    case same
    with assms(2) show ?thesis by (simp add: pl_inv_def)
  next
    case sent
    from sent have n: "nat v < length (VMs p)" by simp
    have "vm_inv ?vm" using pl_inv_nth [OF assms(2) n] by simp
    then have "pl_inv p'" by (rule pl_inv_update [OF assms(2) _ sent(3)])
    moreover have "List (VMs p' ! k) = List (VMs p ! k)
               \<and> ListAck (VMs p' ! k) = ListAck (VMs p ! k)
               \<and> Height (VMs p' ! k) = Height (VMs p ! k)" if "k < length (VMs p)" for k
      using that by (cases "k = nat v") (simp_all add: sent(3))
    ultimately show ?thesis by (simp add: sent(3))
  qed
qed

lemma length_VMs_update_vm [simp]: "length (VMs (update_vm p i f)) = length (VMs p)"
  by (simp add: update_vm_def)

lemma nth_VMs_update_vm [simp]:
  "i < length (VMs p) \<Longrightarrow> VMs (update_vm p i f) ! i = f (VMs p ! i)"
  by (simp add: update_vm_def)

lemma update_vm_State: "update_vm (p\<lparr>State := st\<rparr>) i f = (update_vm p i f)\<lparr>State := st\<rparr>"
  by (simp add: update_vm_def)

lemma VMs_update_vm_State [simp]: "VMs (update_vm (p\<lparr>State := st\<rparr>) i f) = VMs (update_vm p i f)"
  by (simp add: update_vm_def)

lemma VMs_update_vm_Next [simp]:
  "VMs (update_vm (p\<lparr>NextHeightToProcess := x\<rparr>) i f) = VMs (update_vm p i f)"
  by (simp add: update_vm_def)

lemma pl_inv_cong: "VMs p' = VMs p \<Longrightarrow> pl_inv p' = pl_inv p"
  by (simp add: pl_inv_def)

lemma pl_inv_clear_slot: "pl_inv p \<Longrightarrow> pl_inv (clear_slot p i j)"
  unfolding clear_slot_def
  by (rule pl_inv_update_vm) (auto intro: vm_inv_clear dest: pl_inv_nth)

lemma length_VMs_clear_slot [simp]: "length (VMs (clear_slot p i j)) = length (VMs p)"
  by (simp add: clear_slot_def)

lemma VMs_clear_slot_Next [simp]:
  "VMs (clear_slot (p\<lparr>NextHeightToProcess := x\<rparr>) i j) = VMs (clear_slot p i j)"
  by (simp add: clear_slot_def)

lemma ProcessSlot_Advance_filled:
  assumes "ProcessSlot env p i j = Inr (Advance p')"
  shows "0 \<le> j \<and> List (VMs p ! i) ! nat j \<noteq> None"
  using assms unfolding ProcessSlot_def Let_def
  by (auto split: if_splits option.splits sum.splits serial_result.splits prod.splits)

lemma ProcessSlot_Break:
  assumes "ProcessSlot env p i j = Inr (Break p')"
  shows "(\<exists>q v h. (VMs q = VMs p \<or> VMs q = VMs (clear_slot p i (nat j))) \<and> Ask env q v h = Inr p')
         \<or> VMs p' = VMs (clear_slot p i (nat j))
         \<or> VMs p' = VMs (update_vm p i (\<lambda>vm. vm\<lparr>ProcessTime := Now (State p)\<rparr>))
         \<or> VMs p' = VMs p"
  using assms unfolding ProcessSlot_def Let_def
  by (auto split: if_splits option.splits sum.splits serial_result.splits prod.splits)

lemma ProcessSlot_Return:
  assumes "ProcessSlot env p i j = Inr (Return p')"
  shows "p' = p\<lparr>State := State_Reset (State p)\<rparr>"
  using assms unfolding ProcessSlot_def Let_def
  by (auto split: if_splits option.splits sum.splits serial_result.splits prod.splits)

lemma ProcessSlot_inv:
  assumes r: "ProcessSlot env p i j = Inr r" and inv: "pl_inv p"
    and i: "i < length (VMs p)" and h: "Height (VMs p ! i) = j"
    and j: "j < int (length (List (VMs p ! i)))"
  shows "case r of
           Advance p' \<Rightarrow> pl_inv p' \<and> length (VMs p') = length (VMs p)
                         \<and> Height (VMs p' ! i) = j + 1
         | Break p' \<Rightarrow> pl_inv p' \<and> length (VMs p') = length (VMs p)
         | Return p' \<Rightarrow> pl_inv p' \<and> length (VMs p') = length (VMs p)"
proof (cases r)
  case (Advance p')
  from ProcessSlot_Advance [OF r [unfolded Advance]] obtain st where
    p': "p' = update_vm
             (update_vm (p\<lparr>NextHeightToProcess := (NextHeightToProcess p)[i := j + 1]\<rparr>) i
                (\<lambda>vm. vm\<lparr>ProcessTime := Now (State p)\<rparr>)
              \<lparr>State := st\<rparr>)
             i (\<lambda>vm. vm\<lparr>heartBeat := 0, Height := j + 1\<rparr>)"
    by blast
  let ?vm = "(VMs p ! i)\<lparr>ProcessTime := Now (State p)\<rparr>"
  have v: "VMs p' = (VMs p)[i := ?vm\<lparr>heartBeat := 0, Height := j + 1\<rparr>]"
    using i by (simp add: p' update_vm_def)
  from ProcessSlot_Advance_filled [OF r [unfolded Advance]]
  have f: "List ?vm ! nat j \<noteq> None" by simp
  have "vm_inv ?vm" using pl_inv_nth [OF inv i] by simp
  then have "vm_inv (?vm\<lparr>heartBeat := 0, Height := j + 1\<rparr>)"
    using h j f by (intro vm_inv_advance) simp_all
  then have "pl_inv p'" by (rule pl_inv_update [OF inv _ v])
  with v i Advance show ?thesis by simp
next
  case (Break p')
  from ProcessSlot_Break [OF r [unfolded Break]] consider
    (ask) q v h where "VMs q = VMs p \<or> VMs q = VMs (clear_slot p i (nat j))" "Ask env q v h = Inr p'"
    | (clear) "VMs p' = VMs (clear_slot p i (nat j))"
    | (time) "VMs p' = VMs (update_vm p i (\<lambda>vm. vm\<lparr>ProcessTime := Now (State p)\<rparr>))"
    | (same) "VMs p' = VMs p"
    by blast
  then have "pl_inv p' \<and> length (VMs p') = length (VMs p)"
  proof cases
    case ask
    from ask(1) have "pl_inv q \<and> length (VMs q) = length (VMs p)"
      using inv pl_inv_clear_slot [OF inv, of i "nat j"]
      by (auto simp: pl_inv_cong [of q p] pl_inv_cong [of q "clear_slot p i (nat j)"])
    with Ask_inv [OF ask(2)] show ?thesis by simp
  next
    case clear
    with pl_inv_clear_slot [OF inv, of i "nat j"] show ?thesis
      by (simp add: pl_inv_cong [of p' "clear_slot p i (nat j)"])
  next
    case time
    have "pl_inv (update_vm p i (\<lambda>vm. vm\<lparr>ProcessTime := Now (State p)\<rparr>))"
      using inv by (rule pl_inv_update_vm) (use pl_inv_nth [OF inv] in simp)
    with time show ?thesis
      by (simp add: pl_inv_cong [of p' "update_vm p i (\<lambda>vm. vm\<lparr>ProcessTime := Now (State p)\<rparr>)"])
  next
    case same
    with inv show ?thesis by (simp add: pl_inv_cong [of p' p])
  qed
  with Break show ?thesis by simp
next
  case (Return p')
  from ProcessSlot_Return [OF r [unfolded Return]] inv Return show ?thesis by simp
qed

lemma VMListLoop_inv:
  "VMListLoop env p i j progress = Inr (p', r) \<Longrightarrow> pl_inv p \<Longrightarrow> i < length (VMs p) \<Longrightarrow>
   Height (VMs p ! i) = j \<Longrightarrow> pl_inv p' \<and> length (VMs p') = length (VMs p)"
proof (induction env p i j progress rule: VMListLoop.induct)
  case (1 env p i j progress)
  show ?case
  proof (cases "j < int (length (List (VMs p ! i)))")
    case False
    with "1.prems" show ?thesis by (simp add: VMListLoop.simps [of env p])
  next
    case True
    show ?thesis
    proof (cases "ProcessSlot env p i j")
      case (Inl e)
      with True "1.prems" show ?thesis by (simp add: VMListLoop.simps [of env p])
    next
      case (Inr x)
      note s = ProcessSlot_inv [OF Inr "1.prems"(2,3,4) True]
      show ?thesis
      proof (cases x)
        case (Advance q)
        with s have q: "pl_inv q" "length (VMs q) = length (VMs p)" "Height (VMs q ! i) = j + 1"
          by simp_all
        from "1.prems"(1) True Inr Advance
        have "VMListLoop env q i (j + 1) True = Inr (p', r)"
          by (simp add: VMListLoop.simps [of env p])
        from "1.IH" [OF True Inr Advance this q(1) _ q(3)] q(2) "1.prems"(3)
        show ?thesis by simp
      next
        case (Break q)
        with s "1.prems"(1) True Inr show ?thesis
          by (auto simp: VMListLoop.simps [of env p])
      next
        case (Return q)
        with s "1.prems"(1) True Inr show ?thesis
          by (auto simp: VMListLoop.simps [of env p])
      qed
    qed
  qed
qed

lemma Process_faults_inv:
  "pl_inv p \<Longrightarrow> pl_inv (Process_faults env p i) \<and> length (VMs (Process_faults env p i)) = length (VMs p)"
  unfolding Process_faults_def Let_def markFault_def markNoFault_def
  by (auto intro!: pl_inv_update_vm dest: pl_inv_nth)

lemma Ask_if_inv:
  assumes "(if c then Ask env p v h else Inr p) = Inr p'" and "pl_inv p"
  shows "pl_inv p' \<and> length (VMs p') = length (VMs p)"
proof (cases c)
  case True
  with assms(1) have "Ask env p v h = Inr p'" by simp
  from Ask_inv [OF this assms(2)] show ?thesis by simp
next
  case False
  with assms show ?thesis by simp
qed

lemma Process_asks_inv:
  assumes "Process_asks env now p i = Inr p'" and "pl_inv p"
  shows "pl_inv p' \<and> length (VMs p') = length (VMs p)"
proof -
  let ?first = "if Height (VMs p ! i) = int (length (List (VMs p ! i)))
               \<and> Syncing (State p) \<and> \<not> Synced (VMs p ! i)
            then Ask env p (int i) (Height (VMs p ! i)) else Inr p"
  show ?thesis
  proof (cases ?first)
    case (Inl e)
    with assms(1) show ?thesis by (simp add: Process_asks_def)
  next
    case (Inr p1)
    note p1 = Ask_if_inv [OF Inr assms(2)]
    from assms(1) Inr have
      "(if Height (VMs p1 ! i) = int (length (List (VMs p1 ! i)))
             \<and> 2000 < sint (GetTimeMilli now - GetTimeMilli (ProcessTime (VMs p1 ! i)))
          then Ask env p1 (int i) (Height (VMs p1 ! i)) else Inr p1) = Inr p'"
      by (simp add: Process_asks_def)
    from Ask_if_inv [OF this] p1 show ?thesis by simp
  qed
qed

lemma ProcessLoop_inv:
  "ProcessLoop env now p i progress = Inr (p', r) \<Longrightarrow> pl_inv p \<Longrightarrow> pl_inv p'"
proof (induction env now p i progress rule: ProcessLoop.induct)
  case (1 env now p i progress)
  show ?case
  proof (cases "i < length (FedServers p)")
    case False
    with "1.prems" show ?thesis by (simp add: ProcessLoop.simps [of env now p])
  next
    case True
    note lt = this
    show ?thesis
    proof (cases "length (VMs p) \<le> i")
      case True
      with lt "1.prems" show ?thesis by (simp add: ProcessLoop.simps [of env now p])
    next
      case False
      note vm = this
      from "1.prems"(1) lt vm obtain p1 where
        a: "Process_asks env now (Process_faults env p i) i = Inr p1"
        by (auto simp: ProcessLoop.simps [of env now p] split: sum.splits)
      from Process_asks_inv [OF a] Process_faults_inv [OF "1.prems"(2), of env i]
      have p1: "pl_inv p1" "length (VMs p1) = length (VMs p)" by simp_all
      from "1.prems"(1) lt vm a obtain p2 pr ret where
        l: "VMListLoop env p1 i (Height (VMs p1 ! i)) progress = Inr (p2, pr, ret)"
        by (auto simp: ProcessLoop.simps [of env now p] split: sum.splits)
      from VMListLoop_inv [OF l p1(1) _ refl] p1(2) vm have p2: "pl_inv p2" by simp
      show ?thesis
      proof (cases ret)
        case True
        with "1.prems"(1) lt vm a l p2 show ?thesis
          by (simp add: ProcessLoop.simps [of env now p])
      next
        case False
        with "1.prems"(1) lt vm a l
        have "ProcessLoop env now p2 (i + 1) pr = Inr (p', r)"
          by (simp add: ProcessLoop.simps [of env now p])
        from "1.IH" [OF lt vm a l refl refl False this p2] show ?thesis .
      qed
    qed
  qed
qed

lemma Process_inv:
  assumes "Process env p = Inr (p', progress)" and "pl_inv p"
  shows "pl_inv p'"
proof (cases "DBHeight p \<le> HighestSavedBlk (State p)")
  case True
  with assms show ?thesis by (simp add: Process_def)
next
  case False
  with assms(1) have "ProcessLoop env (Now (State p))
      (p\<lparr>State := (State p)\<lparr>PLProcessHeight := DBHeight p\<rparr>\<rparr>) 0 False = Inr (p', progress)"
    by (simp add: Process_def Let_def)
  from ProcessLoop_inv [OF this] assms(2) show ?thesis by simp
qed

lemma vm_inv_record:
  assumes "vm_inv vm"
  shows "vm_inv (vm\<lparr>heartBeat := 0,
                    List := (List vm @ replicate (h + 1 - length (List vm)) None)[h := Some m],
                    ListAck := (ListAck vm @ replicate (h + 1 - length (List vm)) None)[h := Some a]\<rparr>)"
proof -
  let ?g = "h + 1 - length (List vm)"
  let ?l = "(List vm @ replicate ?g None)[h := Some m]"
  let ?a = "(ListAck vm @ replicate ?g None)[h := Some a]"
  from assms have len: "length (List vm) = length (ListAck vm)" by (simp add: vm_inv_def)
  have hl: "h < length (List vm @ replicate ?g None)" by simp
  have ha: "h < length (ListAck vm @ replicate ?g None)" using len by simp
  have 1: "length ?l = length ?a" using len by simp
  have 2: "0 \<le> Height vm \<and> Height vm \<le> int (length ?l)"
    using assms by (simp add: vm_inv_def)
  have 3: "?a ! i \<noteq> None" if "i < length ?l" "?l ! i \<noteq> None" for i
  proof (cases "i = h")
    case True
    with ha show ?thesis by simp
  next
    case False
    with that have "(List vm @ replicate ?g None) ! i \<noteq> None" by simp
    then have i: "i < length (List vm)" "List vm ! i \<noteq> None"
      using that(1) by (auto simp: nth_append split: if_splits)
    with assms have "ListAck vm ! i \<noteq> None" by (simp add: vm_inv_def)
    with False i len show ?thesis by (simp add: nth_append)
  qed
  have 4: "?a ! i \<noteq> None" if "i < length ?l" "int i < Height vm" for i
  proof (cases "i = h")
    case True
    with ha show ?thesis by simp
  next
    case False
    from that assms have i: "i < length (List vm)" by (simp add: vm_inv_def)
    with that assms have "ListAck vm ! i \<noteq> None" by (simp add: vm_inv_def)
    with False i len show ?thesis by (simp add: nth_append)
  qed
  show ?thesis
    unfolding vm_inv_def using 1 2 3 4 by simp
qed

lemma AddToProcessList_record_inv:
  assumes "AddToProcessList_record q ack mo = Inr p'" and "pl_inv q"
    and "nat (aVMIndex ack) < length (VMs q)"
  shows "pl_inv p'"
proof -
  let ?i = "nat (aVMIndex ack)"
  let ?h = "unat (aHeight ack)"
  from assms(1) obtain m where mo: "mo = Some m"
    by (cases mo) (simp_all add: AddToProcessList_record_def)
  let ?vm = "VMs q ! ?i"
  let ?vm' = "?vm\<lparr>heartBeat := 0,
      List := (List ?vm @ replicate (?h + 1 - length (List ?vm)) None)
                [?h := Some (m\<lparr>mLocal := False, mPeer2Peer := False\<rparr>)],
      ListAck := (ListAck ?vm @ replicate (?h + 1 - length (List ?vm)) None)
                [?h := Some (ack\<lparr>aLocal := False, aPeer2Peer := False\<rparr>)]\<rparr>"
  from assms(1) have v: "VMs p' = (VMs q)[?i := ?vm']"
    unfolding AddToProcessList_record_def mo Let_def
    by (auto split: if_splits)
  have "vm_inv ?vm'" using pl_inv_nth [OF assms(2,3)] by (rule vm_inv_record)
  then show ?thesis by (rule pl_inv_update [OF assms(2) _ v])
qed

lemma AddToProcessList_VMs:
  assumes "AddToProcessList env p (Some ack) mo = Inr p'"
  shows "VMs p' = VMs p
         \<or> VMs p' = VMs (update_vm p (nat (aVMIndex ack))
                          (\<lambda>vm. vm\<lparr>List := (List vm)[unat (aHeight ack) := None]\<rparr>))
         \<or> (nat (aVMIndex ack) < length (VMs p)
            \<and> (AddToProcessList_record p ack mo = Inr p'
                \<or> AddToProcessList_record
                     (p\<lparr>State := (State p)\<lparr>HighestAck := aDBHeight ack\<rparr>\<rparr>) ack mo = Inr p'))"
  using assms unfolding AddToProcessList_def Let_def option.case
  by (auto split: if_splits simp: update_vm_def)

lemma AddToProcessList_inv:
  assumes "AddToProcessList env p acko mo = Inr p'" and "pl_inv p"
  shows "pl_inv p'"
proof (cases acko)
  case None
  with assms show ?thesis by (simp add: AddToProcessList_def)
next
  case (Some ack)
  let ?q = "p\<lparr>State := (State p)\<lparr>HighestAck := aDBHeight ack\<rparr>\<rparr>"
  let ?c = "update_vm p (nat (aVMIndex ack))
              (\<lambda>vm. vm\<lparr>List := (List vm)[unat (aHeight ack) := None]\<rparr>)"
  from AddToProcessList_VMs [OF assms(1) [unfolded Some]] consider
    (same) "VMs p' = VMs p"
    | (clear) "VMs p' = VMs ?c"
    | (stored) "nat (aVMIndex ack) < length (VMs p)" "AddToProcessList_record p ack mo = Inr p'"
    | (stored') "nat (aVMIndex ack) < length (VMs p)" "AddToProcessList_record ?q ack mo = Inr p'"
    by blast
  then show ?thesis
  proof cases
    case same
    with assms(2) show ?thesis by (simp add: pl_inv_cong [of p' p])
  next
    case clear
    have "pl_inv ?c"
      using assms(2) by (rule pl_inv_update_vm) (auto intro: vm_inv_clear dest: pl_inv_nth [OF assms(2)])
    with clear show ?thesis by (simp add: pl_inv_cong [of p' ?c])
  next
    case stored
    from AddToProcessList_record_inv [OF stored(2) assms(2) stored(1)] show ?thesis .
  next
    case stored'
    have "pl_inv ?q" using assms(2) by simp
    from AddToProcessList_record_inv [OF stored'(2) this] stored'(1) show ?thesis by simp
  qed
qed

lemma vm_inv_NewVM: "vm_inv (NewVM now)"
  by (simp add: vm_inv_def NewVM_def)

lemma VMs_ProcessList_MakeMap: "ProcessList_MakeMap p = Inr p' \<Longrightarrow> VMs p' = VMs p"
  by (auto simp: ProcessList_MakeMap_def split: sum.splits)

lemma NewProcessList_VMs:
  assumes "NewProcessList env state previous dbheight = Inr p"
  shows "\<exists>now. VMs p = replicate 65 (NewVM now)"
proof -
  from assms obtain pl1 pl2 where
    "ProcessList_MakeMap (pl1\<lparr>VMs := replicate 65 (NewVM (Now (State pl1))),
                              DBHeight := dbheight\<rparr>) = Inr pl2" and "p = pl2"
    unfolding NewProcessList_def Let_def
    by (auto split: sum.splits option.splits)
  with VMs_ProcessList_MakeMap [OF this(1)] show ?thesis by auto
qed

lemma NewProcessList_inv:
  assumes "NewProcessList env state previous dbheight = Inr p"
  shows "pl_inv p"
proof -
  from NewProcessList_VMs [OF assms] obtain now where "VMs p = replicate 65 (NewVM now)" ..
  then show ?thesis by (simp add: pl_inv_def list_all_length vm_inv_NewVM)
qed

lemma run_calls_inv:
  "run_calls env p calls = Inr p' \<Longrightarrow> pl_inv p \<Longrightarrow> pl_inv p'"
proof (induction calls arbitrary: p)
  case Nil
  then show ?case by simp
next
  case (Cons c calls)
  show ?case
  proof (cases c)
    case (Admit ack m)
    with Cons.prems(1) obtain q where q: "AddToProcessList env p ack m = Inr q"
      "run_calls env q calls = Inr p'"
      by (auto split: sum.splits)
    from Cons.IH [OF q(2) AddToProcessList_inv [OF q(1) Cons.prems(2)]] show ?thesis .
  next
    case Run
    with Cons.prems(1) obtain q pr where q: "Process env p = Inr (q, pr)"
      "run_calls env q calls = Inr p'"
      by (auto split: sum.splits)
    from Cons.IH [OF q(2) Process_inv [OF q(1) Cons.prems(2)]] show ?thesis .
  next
    case (Elsewhere st)
    with Cons.prems(1) have "run_calls env (p\<lparr>State := st\<rparr>) calls = Inr p'" by simp
    from Cons.IH [OF this] Cons.prems(2) show ?thesis by simp
  qed
qed

text \<open>
  C2 (as amended): after any sequence of calls of \<open>AddToProcessList\<close> and Process on a
  process list made by \<open>NewProcessList\<close>, every VM has \<open>len(List) = len(ListAck)\<close> and
  \<open>0 \<le> Height \<le> len(List)\<close>; a slot without an acknowledgement has no message (a slot
  with an acknowledgement may have lost its message); and every slot below the height
  has its acknowledgement.
\<close>

theorem VM_invariant:
  assumes "NewProcessList env state previous dbheight = Inr p0"
    and "run_calls env p0 calls = Inr p"
    and "vm \<in> set (VMs p)"
  shows "length (List vm) = length (ListAck vm)
         \<and> 0 \<le> Height vm \<and> Height vm \<le> int (length (List vm))
         \<and> (\<forall>i<length (List vm). ListAck vm ! i = None \<longrightarrow> List vm ! i = None)
         \<and> (\<forall>i. int i < Height vm \<longrightarrow> ListAck vm ! i \<noteq> None)"
proof -
  from run_calls_inv [OF assms(2) NewProcessList_inv [OF assms(1)]] assms(3)
  have v: "vm_inv vm" by (simp add: pl_inv_def list_all_iff)
  then have "ListAck vm ! i \<noteq> None" if "int i < Height vm" for i
    using that by (simp add: vm_inv_def)
  with v show ?thesis by (auto simp: vm_inv_def)
qed

lemma MakeMap_1: "MakeMap 1 0 = Inr (replicate 10 (replicate 64 0))"
  "MakeMap 1 4 = Inr (replicate 10 (replicate 64 0))"
  by code_simp+

lemma ex_new: "NewProcessList ex_env ex_State None 4 = Inr ex_pl_new"
  by (simp add: NewProcessList_def AddFedServer_def SortFedServers_def SortServers_def
      SortServers_from.simps GetFedServerIndexHash_def GetAuditServerIndexHash_def
      Enqueue_def insert_at_def ProcessList_MakeMap_def MakeMap_1 ex_env_def ex_State_def
      ex_pl_new_def ex_Server_def Let_def)

lemma ex_run:
  "\<exists>p. run_calls ex_env ex_pl_new ex_calls = Inr p
       \<and> Height (VMs p ! 0) = 1 \<and> List (VMs p ! 0) = [None]
       \<and> ListAck (VMs p ! 0) = [Some (ex_Ack 0 [9] [9])]"
  by (simp add: ex_calls_def AddToProcessList_def AddToProcessList_record_def slot_filled_def
      Process_def ProcessLoop.simps Process_faults_def markNoFault_def markFault_def update_vm_def
      Process_asks_def VMListLoop.simps ProcessSlot_def SerialHashCheck_def record_processed_def
      ex_pl_new_def ex_State_def ex_env_def ex_Ack_def ex_msg_def NewVM_def toss_def Let_def
      GetTimeMilli_def GetTimeSeconds_def clear_slot_def)

lemma ex_run_length:
  "\<exists>p. run_calls ex_env ex_pl_new ex_calls = Inr p \<and> length (VMs p) = 65"
  by (simp add: ex_calls_def AddToProcessList_def AddToProcessList_record_def slot_filled_def
      Process_def ProcessLoop.simps Process_faults_def markNoFault_def markFault_def update_vm_def
      Process_asks_def VMListLoop.simps ProcessSlot_def SerialHashCheck_def record_processed_def
      ex_pl_new_def ex_State_def ex_env_def ex_Ack_def ex_msg_def NewVM_def toss_def Let_def
      GetTimeMilli_def GetTimeSeconds_def clear_slot_def)

theorem VM_invariant_witness:
  "NewProcessList ex_env ex_State None 4 = Inr ex_pl_new
   \<and> \<not> isl (run_calls ex_env ex_pl_new ex_calls)
   \<and> length (List (VMs (projr (run_calls ex_env ex_pl_new ex_calls)) ! 0))
       = length (ListAck (VMs (projr (run_calls ex_env ex_pl_new ex_calls)) ! 0))
   \<and> Height (VMs (projr (run_calls ex_env ex_pl_new ex_calls)) ! 0)
       \<le> int (length (List (VMs (projr (run_calls ex_env ex_pl_new ex_calls)) ! 0)))
   \<and> ListAck (VMs (projr (run_calls ex_env ex_pl_new ex_calls)) ! 0) ! 0 \<noteq> None"
proof -
  from ex_run ex_run_length obtain p where
    r: "run_calls ex_env ex_pl_new ex_calls = Inr p"
    and h: "Height (VMs p ! 0) = 1" and n: "length (VMs p) = 65"
    by auto
  from n have mem: "VMs p ! 0 \<in> set (VMs p)" by simp
  from VM_invariant [OF ex_new r mem] h
  have "length (List (VMs p ! 0)) = length (ListAck (VMs p ! 0))
        \<and> Height (VMs p ! 0) \<le> int (length (List (VMs p ! 0)))
        \<and> ListAck (VMs p ! 0) ! 0 \<noteq> None"
    by simp
  with r ex_new show ?thesis by simp
qed

text \<open>
  After the admission of a message to slot 0, a run of Process and the arrival of
  another message for the same slot, VM 0 has height 1 and slot 0 holds an
  acknowledgement and no message.
\<close>

theorem VM_invariant_counterexample:
  "NewProcessList ex_env ex_State None 4 = Inr ex_pl_new
   \<and> \<not> isl (run_calls ex_env ex_pl_new ex_calls)
   \<and> Height (VMs (projr (run_calls ex_env ex_pl_new ex_calls)) ! 0) = 1
   \<and> List (VMs (projr (run_calls ex_env ex_pl_new ex_calls)) ! 0) ! 0 = None
   \<and> ListAck (VMs (projr (run_calls ex_env ex_pl_new ex_calls)) ! 0) ! 0 \<noteq> None"
proof -
  from ex_run obtain p where
    "run_calls ex_env ex_pl_new ex_calls = Inr p" "Height (VMs p ! 0) = 1"
    "List (VMs p ! 0) = [None]" "ListAck (VMs p ! 0) = [Some (ex_Ack 0 [9] [9])]"
    by auto
  with ex_new show ?thesis by simp
qed

subsection \<open>Membership lists: sorting, removal and insertion\<close>



lemma mset_SortServers_pass: "mset (fst (SortServers_pass s i j d)) = mset s"
proof (induction s i j d rule: SortServers_pass.induct)
  case (1 servers i j d)
  show ?case
  proof (cases "int j < int (length servers) - 1 - int i")
    case False
    then show ?thesis by (simp add: SortServers_pass.simps [of servers])
  next
    case True
    then have j: "j < length servers" "j + 1 < length servers" by simp_all
    show ?thesis
    proof (cases "bytes_Compare (ChainID (servers ! j)) (ChainID (servers ! (j + 1))) > 0")
      case False
      with True "1.IH"(2) show ?thesis by (simp add: SortServers_pass.simps [of servers])
    next
      case c: True
      have "mset (servers[j := servers ! (j + 1), j + 1 := servers ! j]) = mset servers"
        using j by (simp add: mset_swap)
      with True c "1.IH"(1) show ?thesis by (simp add: SortServers_pass.simps [of servers])
    qed
  qed
qed

lemma mset_SortServers_from: "mset (SortServers_from s i) = mset s"
proof (induction s i rule: SortServers_from.induct)
  case (1 servers i)
  show ?case
  proof (cases "int i < int (length servers) - 1")
    case False
    then show ?thesis by (simp add: SortServers_from.simps [of servers])
  next
    case True
    obtain s' d where p: "SortServers_pass servers i 0 True = (s', d)" by force
    then have m: "mset s' = mset servers"
      using mset_SortServers_pass [of servers i 0 True] by simp
    show ?thesis
    proof (cases d)
      case True
      with \<open>int i < int (length servers) - 1\<close> p m show ?thesis
        by (simp add: SortServers_from.simps [of servers])
    next
      case False
      with True p m "1.IH" [OF True p [symmetric] False] show ?thesis
        by (simp add: SortServers_from.simps [of servers])
    qed
  qed
qed





lemma SortServers_mset: "mset (SortServers s) = mset s"
  by (simp add: SortServers_def mset_SortServers_from)













lemma length_SortServers [simp]: "length (SortServers s) = length s"
  using arg_cong [OF SortServers_mset [of s], of size] by simp















end
